theory Spec2Isabelle
  imports Main "HOL-Library.Word"
begin

unbundle bit_operations_syntax

section \<open>Basic types and constants of malloc.c\<close>

text \<open>
  The allocator is 64-bit only (\<^verbatim>\<open>static_assert(sizeof(void *) == 8)\<close>): \<^verbatim>\<open>size_t\<close>,
  \<^verbatim>\<open>uintptr_t\<close> and pointers are 64-bit words, the null pointer is the word 0.
  A call either returns, or aborts the process through \<^verbatim>\<open>fatal_error\<close> with a
  diagnostic, or crashes on a null dereference, or never leaves a probing loop, or
  (\<open>Overrun\<close>) uses a reserved buffer past the bytes that were reserved for it, where
  what it reads and writes is no longer the buffer.
\<close>

type_synonym size_t = "64 word"
type_synonym ptr = "64 word"

datatype failure = Fatal string | Crash | Hang | Overrun

text \<open>
  \<^verbatim>\<open>config.h\<close> is not part of the sources at hand: its compile-time switches are taken
  as a parameter. \<^verbatim>\<open>little_endian\<close> stands for
  \<^verbatim>\<open>__BYTE_ORDER__ == __ORDER_LITTLE_ENDIAN__\<close>.
\<close>

record config =
  SLAB_CANARY :: bool
  GUARD_SLABS :: bool
  ZERO_ON_FREE :: bool
  WRITE_AFTER_FREE_CHECK :: bool
  SLOT_RANDOMIZE :: bool
  little_endian :: bool

text \<open>\<^verbatim>\<open>static_assert(!WRITE_AFTER_FREE_CHECK || ZERO_ON_FREE)\<close>\<close>

definition config_ok :: "config \<Rightarrow> bool" where
  "config_ok cfg = (\<not> WRITE_AFTER_FREE_CHECK cfg \<or> ZERO_ON_FREE cfg)"

text \<open>
  The results of the external collaborators during one call of an entry point: the
  page provider (\<^verbatim>\<open>memory.h\<close>, \<^verbatim>\<open>pages.h\<close>), the random number generator
  (\<^verbatim>\<open>random.h\<close>) and libc. Every field is named after the call site that reads it;
  a theorem that quantifies over the record covers every behaviour of the collaborators.
\<close>

record env =
  rand_u16 :: "16 word"                \<comment> \<open>\<^verbatim>\<open>get_random_u16_uniform(rng, slots)\<close> in \<^verbatim>\<open>get_free_slot\<close>\<close>
  rand_u64 :: "64 word"                \<comment> \<open>\<^verbatim>\<open>get_random_u64(&c->rng)\<close> in \<^verbatim>\<open>allocate_small\<close>\<close>
  rand_guard :: "64 word"              \<comment> \<open>\<^verbatim>\<open>get_random_u64_uniform\<close> in \<^verbatim>\<open>get_guard_size\<close>\<close>
  protect_metadata_fails :: bool       \<comment> \<open>\<^verbatim>\<open>memory_protect_rw(c->slab_info, ...)\<close> in \<^verbatim>\<open>alloc_metadata\<close>\<close>
  protect_slab_fails :: bool           \<comment> \<open>\<^verbatim>\<open>memory_protect_rw(slab, slab_size)\<close>\<close>
  protect_regions_fails :: bool        \<comment> \<open>\<^verbatim>\<open>memory_protect_rw(p, newsize)\<close> in \<^verbatim>\<open>regions_grow\<close>\<close>
  map_fixed_regions_fails :: bool      \<comment> \<open>\<^verbatim>\<open>memory_map_fixed(regions, ...)\<close> in \<^verbatim>\<open>regions_grow\<close>\<close>
  map_fixed_fails :: bool              \<comment> \<open>\<^verbatim>\<open>memory_map_fixed(slab, slab_size)\<close> in \<^verbatim>\<open>deallocate_small\<close>\<close>
  map_fixed_guard_fails :: bool        \<comment> \<open>\<^verbatim>\<open>memory_map_fixed(new_end, old_guard_size)\<close> in \<^verbatim>\<open>h_realloc\<close>\<close>
  remap_fixed_fails :: bool            \<comment> \<open>\<^verbatim>\<open>memory_remap_fixed\<close> in \<^verbatim>\<open>h_realloc\<close>\<close>
  pages :: ptr                         \<comment> \<open>\<^verbatim>\<open>allocate_pages(size, guard_size, true)\<close>, 0 for NULL\<close>
  sysconf_pagesize :: "64 word"        \<comment> \<open>\<^verbatim>\<open>sysconf(_SC_PAGESIZE)\<close>\<close>
  regions_buf_ok :: "nat \<Rightarrow> bool"       \<comment> \<open>\<^verbatim>\<open>allocate_pages\<close> for \<^verbatim>\<open>ro.regions[i]\<close> is not NULL\<close>
  protect_regions_init_fails :: bool   \<comment> \<open>\<^verbatim>\<open>memory_protect_rw(regions, ...)\<close> in \<^verbatim>\<open>init_slow_path\<close>\<close>
  slab_region :: ptr                   \<comment> \<open>\<^verbatim>\<open>memory_map(slab_region_size)\<close>, 0 for NULL\<close>
  class_gap :: "nat \<Rightarrow> 64 word"         \<comment> \<open>\<^verbatim>\<open>get_random_u64_uniform(&regions_rng, bound)\<close> per class\<close>
  slab_info_ok :: "nat \<Rightarrow> bool"         \<comment> \<open>\<^verbatim>\<open>allocate_pages\<close> for \<^verbatim>\<open>c->slab_info\<close> is not NULL\<close>
  protect_slab_info_fails :: "nat \<Rightarrow> bool"
  protect_ro_fails :: bool             \<comment> \<open>\<^verbatim>\<open>memory_protect_ro(&ro, sizeof(ro))\<close>\<close>
  atfork_fails :: bool                 \<comment> \<open>\<^verbatim>\<open>pthread_atfork\<close>\<close>

text \<open>
  \<^verbatim>\<open>static_assert(PAGE_SIZE == 4096)\<close> fixes the page size; \<^verbatim>\<open>PAGE_SHIFT\<close> and
  \<^verbatim>\<open>PAGE_CEILING\<close> are macros of the absent headers.
\<close>

definition PAGE_SIZE :: size_t where
  "PAGE_SIZE = 4096"

definition PAGE_SHIFT :: nat where
  "PAGE_SHIFT = 12"

text \<open>Modelled from the spec: the macro \<^verbatim>\<open>PAGE_CEILING\<close> (page\_ceil), rounding up to
  a multiple of the page size with 64-bit wrap-around.\<close>

definition PAGE_CEILING :: "size_t \<Rightarrow> size_t" where
  "PAGE_CEILING s = (s + PAGE_SIZE - 1) AND NOT (PAGE_SIZE - 1)"

definition canary_size :: "config \<Rightarrow> size_t" where
  "canary_size cfg = (if SLAB_CANARY cfg then 8 else 0)"

definition min_align :: size_t where
  "min_align = 16"

definition max_slab_size_class :: size_t where
  "max_slab_size_class = 16384"

definition size_classes :: "size_t list" where
  "size_classes =
    [0,
     16, 32, 48, 64, 80, 96, 112, 128,
     160, 192, 224, 256,
     320, 384, 448, 512,
     640, 768, 896, 1024,
     1280, 1536, 1792, 2048,
     2560, 3072, 3584, 4096,
     5120, 6144, 7168, 8192,
     10240, 12288, 14336, 16384]"

definition size_class_slots :: "size_t list" where
  "size_class_slots =
    [256,
     256, 128, 85, 64, 51, 42, 36, 64,
     51, 64, 54, 64,
     64, 64, 64, 64,
     64, 64, 64, 64,
     16, 16, 16, 16,
     8, 8, 8, 8,
     8, 8, 8, 8,
     6, 5, 4, 4]"

definition N_SIZE_CLASSES :: nat where
  "N_SIZE_CLASSES = 37"

definition class_region_size :: size_t where
  "class_region_size = 128 * 1024 * 1024 * 1024"

definition real_class_region_size :: size_t where
  "real_class_region_size = class_region_size * 2"

definition slab_region_size :: size_t where
  "slab_region_size = real_class_region_size * of_nat N_SIZE_CLASSES"

section \<open>The region table (large allocations)\<close>

record region_info =
  r_p :: ptr
  r_size :: size_t
  r_guard_size :: size_t

text \<open>
  The globals \<^verbatim>\<open>regions\<close>, \<^verbatim>\<open>regions_total\<close> and \<^verbatim>\<open>regions_free\<close>. The array is
  a list; slot \<open>i\<close> is read as \<open>regions ! unat i\<close>, and every index the code forms is
  masked by \<open>regions_total - 1\<close>. \<^verbatim>\<open>regions\<close> points to one of the two buffers
  \<^verbatim>\<open>ro.regions[0]\<close> and \<^verbatim>\<open>ro.regions[1]\<close>; \<open>regions_spare\<close> holds the entries at the
  start of the other one that do not read as fresh zero pages (none after
  \<^verbatim>\<open>init_slow_path\<close>).
\<close>

record region_table =
  regions :: "region_info list"
  regions_total :: size_t
  regions_free :: size_t
  regions_spare :: "region_info list"

definition initial_region_table_size :: size_t where
  "initial_region_table_size = 256"

definition max_region_table_size :: size_t where
  "max_region_table_size = class_region_size div PAGE_SIZE"

text \<open>\<^verbatim>\<open>init_slow_path\<close> reserves each of the two buffers with
  \<^verbatim>\<open>allocate_pages(max_region_table_size, PAGE_SIZE, false)\<close>: that many bytes.
  \<^verbatim>\<open>sizeof(struct region_info)\<close> is 24.\<close>

definition regions_buffer_size :: size_t where
  "regions_buffer_size = max_region_table_size"

definition null_region :: region_info where
  "null_region = \<lparr>r_p = 0, r_size = 0, r_guard_size = 0\<rparr>"

definition hash_page :: "ptr \<Rightarrow> size_t" where
  "hash_page q =
    (let u = drop_bit PAGE_SHIFT q;
         sum = u;
         sum = push_bit 7 sum - sum + drop_bit 16 u;
         sum = push_bit 7 sum - sum + drop_bit 32 u;
         sum = push_bit 7 sum - sum + drop_bit 48 u
     in sum)"

text \<open>
  \<^verbatim>\<open>while (p[index].p != NULL) index = (index - 1) & mask;\<close> the probe for a free
  slot of \<^verbatim>\<open>regions_grow\<close> and \<^verbatim>\<open>regions_insert\<close>. It does not return on a table
  without a null slot.
\<close>

partial_function (option) probe_null :: "region_info list \<Rightarrow> size_t \<Rightarrow> size_t \<Rightarrow> size_t option" where
  "probe_null rs msk index =
    (if r_p (rs ! unat index) \<noteq> 0 then probe_null rs msk ((index - 1) AND msk)
     else Some index)"

declare probe_null.simps [code]

text \<open>The rehashing loop of \<^verbatim>\<open>regions_grow\<close> over the entries of the old table, in
  index order, into the new table \<open>p\<close>.\<close>

fun rehash :: "region_info list \<Rightarrow> size_t \<Rightarrow> region_info list \<Rightarrow> region_info list option" where
  "rehash [] msk p = Some p"
| "rehash (e # es) msk p =
    (if r_p e \<noteq> 0 then
       (case probe_null p msk (hash_page (r_p e) AND msk) of
          None \<Rightarrow> None
        | Some index \<Rightarrow> rehash es msk (p[unat index := e]))
     else rehash es msk p)"

text \<open>
  \<^verbatim>\<open>regions_grow\<close> returns 1 and leaves the table alone on failure. The new table is
  the other buffer: after \<^verbatim>\<open>memory_protect_rw(p, newsize)\<close> it reads as what
  \<open>regions_spare\<close> holds, followed by null entries. When \<open>newsize\<close> is more than the
  bytes reserved for the buffer and \<^verbatim>\<open>memory_protect_rw\<close> does not fail, the table
  runs past its reservation (\<open>Overrun\<close>). The code ignores the result of the
  \<^verbatim>\<open>memory_map_fixed\<close> that drops the pages of the old table: when it fails, the old
  buffer keeps its entries. \<open>Inl Hang\<close>: the rehash does not return.
\<close>

definition regions_grow :: "env \<Rightarrow> region_table \<Rightarrow> failure + (int \<times> region_table)" where
  "regions_grow e t =
    (if regions_total t > (- 1) div 24 div 2 then Inr (1, t)
     else
       let newtotal = regions_total t * 2;
           newsize = newtotal * 24;
           msk = newtotal - 1
       in if newtotal > max_region_table_size then Inr (1, t)
          else if protect_regions_fails e then Inr (1, t)
          else if newsize > regions_buffer_size then Inl Overrun
          else
            (case rehash (take (unat (regions_total t)) (regions t)) msk
                    (take (unat newtotal)
                       (regions_spare t @ replicate (unat newtotal) null_region)) of
               None \<Rightarrow> Inl Hang
             | Some p \<Rightarrow>
                 Inr (0, \<lparr>regions = p,
                          regions_total = newtotal,
                          regions_free = regions_free t + regions_total t,
                          regions_spare =
                            (if map_fixed_regions_fails e
                             then take (unat (regions_total t)) (regions t) else [])\<rparr>)))"

text \<open>\<^verbatim>\<open>regions_insert\<close>; \<open>Inl Hang\<close>: the probe for a null slot does not return.\<close>

definition regions_insert :: "env \<Rightarrow> region_table \<Rightarrow> ptr \<Rightarrow> size_t \<Rightarrow> size_t
    \<Rightarrow> failure + (int \<times> region_table)" where
  "regions_insert e t p sz guard_size =
    (case (if regions_free t * 4 < regions_total t then regions_grow e t else Inr (0, t)) of
       Inl f \<Rightarrow> Inl f
     | Inr (rc, t1) \<Rightarrow>
         if rc \<noteq> 0 then Inr (1, t)
         else
           let msk = regions_total t1 - 1 in
           (case probe_null (regions t1) msk (hash_page p AND msk) of
              None \<Rightarrow> Inl Hang
            | Some index \<Rightarrow>
                Inr (0, t1\<lparr>regions := (regions t1)[unat index :=
                                 \<lparr>r_p = p, r_size = sz, r_guard_size = guard_size\<rparr>],
                            regions_free := regions_free t1 - 1\<rparr>)))"

text \<open>\<^verbatim>\<open>while (r != p && r != NULL) index = (index - 1) & mask;\<close>\<close>

partial_function (option) find_loop :: "region_info list \<Rightarrow> size_t \<Rightarrow> ptr \<Rightarrow> size_t \<Rightarrow> size_t option" where
  "find_loop rs msk p index =
    (if r_p (rs ! unat index) \<noteq> p \<and> r_p (rs ! unat index) \<noteq> 0
     then find_loop rs msk p ((index - 1) AND msk)
     else Some index)"

declare find_loop.simps [code]

text \<open>\<^verbatim>\<open>regions_find\<close>: \<open>Some (Some i)\<close> is the address of slot \<open>i\<close>, \<open>Some None\<close> is
  NULL, \<open>None\<close> is a probe that does not return.\<close>

definition regions_find :: "region_table \<Rightarrow> ptr \<Rightarrow> size_t option option" where
  "regions_find t p =
    (let msk = regions_total t - 1 in
     case find_loop (regions t) msk p (hash_page p AND msk) of
       None \<Rightarrow> None
     | Some index \<Rightarrow>
         let r = r_p (regions t ! unat index) in
         Some (if r = p \<and> r \<noteq> 0 then Some index else None))"

text \<open>The test of \<^verbatim>\<open>regions_delete\<close> under which the entry at \<open>i\<close> with home bucket
  \<open>r\<close> stays where it is (\<^verbatim>\<open>continue\<close>).\<close>

definition delete_skip :: "size_t \<Rightarrow> size_t \<Rightarrow> size_t \<Rightarrow> bool" where
  "delete_skip i r j = ((i \<le> r \<and> r < j) \<or> (r < j \<and> j < i) \<or> (j < i \<and> i \<le> r))"

definition clear_region :: "region_info list \<Rightarrow> size_t \<Rightarrow> region_info list" where
  "clear_region rs i = rs[unat i := (rs ! unat i)\<lparr>r_p := 0, r_size := 0\<rparr>]"

text \<open>
  The two nested loops of \<^verbatim>\<open>regions_delete\<close>, entered after slot \<open>j\<close> has been
  cleared with \<open>i = j\<close>. One unfolding is one pass of the inner loop:
  \<^verbatim>\<open>i = (i - 1) & mask\<close>, \<^verbatim>\<open>return\<close> on a null slot, \<^verbatim>\<open>continue\<close> when
  \<open>delete_skip\<close> holds, otherwise \<^verbatim>\<open>regions[j] = regions[i]; break\<close> followed by the
  head of the outer loop, which clears slot \<open>i\<close> and sets \<open>j = i\<close>.
\<close>

partial_function (option) delete_loop :: "region_info list \<Rightarrow> size_t \<Rightarrow> size_t \<Rightarrow> size_t \<Rightarrow> region_info list option" where
  "delete_loop rs msk i j =
    (let i' = (i - 1) AND msk in
     if r_p (rs ! unat i') = 0 then Some rs
     else if delete_skip i' (hash_page (r_p (rs ! unat i')) AND msk) j
          then delete_loop rs msk i' j
          else delete_loop (clear_region (rs[unat j := rs ! unat i']) i') msk i' i')"

declare delete_loop.simps [code]

definition regions_delete :: "region_table \<Rightarrow> size_t \<Rightarrow> region_table option" where
  "regions_delete t region =
    (let msk = regions_total t - 1 in
     case delete_loop (clear_region (regions t) region) msk region region of
       None \<Rightarrow> None
     | Some rs \<Rightarrow> Some (t\<lparr>regions := rs, regions_free := regions_free t + 1\<rparr>))"

section \<open>Size classes\<close>

record size_info =
  si_size :: size_t
  si_class :: nat

text \<open>\<^verbatim>\<open>get_size_info\<close>; \<^verbatim>\<open>~15\<close> is the \<^verbatim>\<open>int\<close> -16 converted to \<^verbatim>\<open>size_t\<close>.\<close>

definition get_size_info :: "size_t \<Rightarrow> failure + size_info" where
  "get_size_info sz =
    (if sz = 0 then Inr \<lparr>si_size = 0, si_class = 0\<rparr>
     else if sz \<le> 128 then
       Inr \<lparr>si_size = (sz + 15) AND NOT 15, si_class = unat (drop_bit 4 (sz - 1) + 1)\<rparr>
     else
       (case find (\<lambda>cl. sz \<le> size_classes ! cl) [9..<N_SIZE_CLASSES] of
          Some cl \<Rightarrow> Inr \<lparr>si_size = size_classes ! cl, si_class = cl\<rparr>
        | None \<Rightarrow> Inl (Fatal ''invalid size for slabs'')))"

definition get_slab_size :: "size_t \<Rightarrow> size_t \<Rightarrow> size_t" where
  "get_slab_size slots sz = PAGE_CEILING (slots * sz)"

definition max_empty_slabs_total :: size_t where
  "max_empty_slabs_total = 64 * 1024"

section \<open>The slab engine\<close>

text \<open>
  A \<^verbatim>\<open>struct slab_metadata *\<close> always points into the array \<^verbatim>\<open>c->slab_info\<close> of its
  class: it is modelled by its index, \<open>None\<close> for NULL, and the array by a function from
  indices to records (the pages of the array read as zero until they are written).
  \<open>nxt\<close> and \<open>prv\<close> are the fields \<^verbatim>\<open>next\<close> and \<^verbatim>\<open>prev\<close>.
\<close>

record slab_metadata =
  bitmap :: "64 word"
  nxt :: "nat option"
  prv :: "nat option"
  canary_value :: "64 word"

text \<open>
  \<^verbatim>\<open>struct size_class\<close> without the lock, the random state (its draws are in \<open>env\<close>)
  and the two libdivide divisors, which \<^verbatim>\<open>init_slow_path\<close> generates from the object
  size and the slab size of the class: the divisions by them are written with \<open>div\<close>.
\<close>

record size_class =
  class_region_start :: ptr
  slab_info :: "nat \<Rightarrow> slab_metadata"
  partial_slabs :: "nat option"
  empty_slabs :: "nat option"
  empty_slabs_total :: size_t
  free_slabs_head :: "nat option"
  free_slabs_tail :: "nat option"
  metadata_allocated :: size_t
  metadata_count :: size_t

text \<open>
  The allocator's state: the read-only root \<^verbatim>\<open>ro\<close>, \<^verbatim>\<open>size_class_metadata\<close>, the
  region table, and user memory as a map from addresses to bytes. Which pages are mapped
  or accessible is not part of the model; pages that the page provider maps afresh read
  as zero.
\<close>

record allocator =
  slab_region_start :: ptr
  slab_region_end :: ptr
  initialized :: bool
  size_class_metadata :: "nat \<Rightarrow> size_class"
  rt :: region_table
  memory :: "ptr \<Rightarrow> 8 word"

definition zero_metadata :: slab_metadata where
  "zero_metadata = \<lparr>bitmap = 0, nxt = None, prv = None, canary_value = 0\<rparr>"

definition zero_class :: size_class where
  "zero_class =
    \<lparr>class_region_start = 0, slab_info = (\<lambda>_. zero_metadata), partial_slabs = None,
     empty_slabs = None, empty_slabs_total = 0, free_slabs_head = None, free_slabs_tail = None,
     metadata_allocated = 0, metadata_count = 0\<rparr>"

text \<open>The state of a process at its start: zero-initialised statics, and the initialisers
  of \<^verbatim>\<open>regions_total\<close> and \<^verbatim>\<open>regions_free\<close>.\<close>

definition start_state :: "(ptr \<Rightarrow> 8 word) \<Rightarrow> allocator" where
  "start_state mem =
    \<lparr>slab_region_start = 0, slab_region_end = 0, initialized = False,
     size_class_metadata = (\<lambda>_. zero_class),
     rt = \<lparr>regions = [], regions_total = initial_region_table_size,
            regions_free = initial_region_table_size, regions_spare = []\<rparr>,
     memory = mem\<rparr>"

text \<open>\<^verbatim>\<open>memset\<close>, \<^verbatim>\<open>memcpy\<close> and the 8-byte \<^verbatim>\<open>memcpy\<close> from and to a
  \<^verbatim>\<open>uint64_t\<close>, on the byte map.\<close>

definition memset_zero :: "(ptr \<Rightarrow> 8 word) \<Rightarrow> ptr \<Rightarrow> size_t \<Rightarrow> (ptr \<Rightarrow> 8 word)" where
  "memset_zero mem p n = (\<lambda>x. if x - p < n then 0 else mem x)"

definition memcpy_bytes :: "(ptr \<Rightarrow> 8 word) \<Rightarrow> ptr \<Rightarrow> ptr \<Rightarrow> size_t \<Rightarrow> (ptr \<Rightarrow> 8 word)" where
  "memcpy_bytes mem dst src n = (\<lambda>x. if x - dst < n then mem (src + (x - dst)) else mem x)"

definition byte_shift :: "bool \<Rightarrow> nat \<Rightarrow> nat" where
  "byte_shift le i = (if le then 8 * i else 8 * (7 - i))"

definition load_u64 :: "bool \<Rightarrow> (ptr \<Rightarrow> 8 word) \<Rightarrow> ptr \<Rightarrow> 64 word" where
  "load_u64 le mem a =
    fold (\<lambda>i v. v OR push_bit (byte_shift le i) (ucast (mem (a + of_nat i)))) [0..<8] 0"

definition store_u64 :: "bool \<Rightarrow> (ptr \<Rightarrow> 8 word) \<Rightarrow> ptr \<Rightarrow> 64 word \<Rightarrow> (ptr \<Rightarrow> 8 word)" where
  "store_u64 le mem a v =
    (\<lambda>x. if x - a < 8 then ucast (drop_bit (byte_shift le (unat (x - a))) v) else mem x)"

definition get_slab :: "size_class \<Rightarrow> size_t \<Rightarrow> nat \<Rightarrow> ptr" where
  "get_slab c slab_size metadata = class_region_start c + of_nat metadata * slab_size"

definition get_metadata_max :: "size_t \<Rightarrow> size_t" where
  "get_metadata_max slab_size = class_region_size div slab_size"

text \<open>
  \<^verbatim>\<open>alloc_metadata\<close> returns the new entry (\<open>None\<close> for NULL) and the class as it
  leaves it. \<^verbatim>\<open>errno\<close> is not modelled.
\<close>

definition alloc_metadata :: "config \<Rightarrow> env \<Rightarrow> size_class \<Rightarrow> size_t \<Rightarrow> bool \<Rightarrow> nat option \<times> size_class" where
  "alloc_metadata cfg e c slab_size non_zero_size =
    (let grown =
       (if metadata_count c \<ge> metadata_allocated c then
          (let metadata_max = get_metadata_max slab_size in
           if metadata_count c \<ge> metadata_max then None
           else
             let allocate = metadata_allocated c * 2;
                 allocate = (if allocate > metadata_max then metadata_max else allocate)
             in if protect_metadata_fails e then None
                else Some (c\<lparr>metadata_allocated := allocate\<rparr>))
        else Some c)
     in case grown of
          None \<Rightarrow> (None, c)
        | Some c \<Rightarrow>
            let metadata = unat (metadata_count c) in
            if non_zero_size \<and> protect_slab_fails e then (None, c)
            else
              let c = c\<lparr>metadata_count := metadata_count c + 1\<rparr>;
                  c = (if GUARD_SLABS cfg then c\<lparr>metadata_count := metadata_count c + 1\<rparr> else c)
              in (Some metadata, c))"

definition check_index :: "size_t \<Rightarrow> failure option" where
  "check_index index = (if index \<ge> 64 then Some (Fatal ''invalid index'') else None)"

definition set_slot :: "slab_metadata \<Rightarrow> size_t \<Rightarrow> failure + slab_metadata" where
  "set_slot metadata index =
    (case check_index index of
       Some f \<Rightarrow> Inl f
     | None \<Rightarrow> Inr (metadata\<lparr>bitmap := bitmap metadata OR push_bit (unat index) 1\<rparr>))"

definition clear_slot :: "slab_metadata \<Rightarrow> size_t \<Rightarrow> failure + slab_metadata" where
  "clear_slot metadata index =
    (case check_index index of
       Some f \<Rightarrow> Inl f
     | None \<Rightarrow> Inr (metadata\<lparr>bitmap := bitmap metadata AND NOT (push_bit (unat index) 1)\<rparr>))"

definition get_slot :: "slab_metadata \<Rightarrow> size_t \<Rightarrow> failure + bool" where
  "get_slot metadata index =
    (case check_index index of
       Some f \<Rightarrow> Inl f
     | None \<Rightarrow> Inr (drop_bit (unat index) (bitmap metadata) AND 1 \<noteq> 0))"

definition get_mask :: "size_t \<Rightarrow> 64 word" where
  "get_mask slots = (if slots < 64 then push_bit (unat slots) (- 1) else 0)"

text \<open>\<^verbatim>\<open>ffzl(x) = __builtin_ffsl(~x)\<close>: one plus the index of the lowest zero bit of
  \<open>x\<close>, or 0 when there is none.\<close>

definition ffzl :: "64 word \<Rightarrow> size_t" where
  "ffzl x = (case find (\<lambda>i. \<not> bit x i) [0..<64] of None \<Rightarrow> 0 | Some i \<Rightarrow> of_nat (i + 1))"

text \<open>
  \<^verbatim>\<open>get_free_slot\<close>. The draw \<^verbatim>\<open>get_random_u16_uniform(rng, slots)\<close> is below
  \<open>slots \<le> 64\<close>; a shift by 64 or more, undefined in C, gives 0 here.
\<close>

definition get_free_slot :: "config \<Rightarrow> env \<Rightarrow> size_t \<Rightarrow> slab_metadata \<Rightarrow> failure + size_t" where
  "get_free_slot cfg e slots metadata =
    (let slots = (if slots > 64 then 64 else slots);
         masked = bitmap metadata OR get_mask slots
     in if masked = - 1 then Inl (Fatal ''no zero bits'')
        else
          let random_split = NOT (push_bit (unat (rand_u16 e)) (- 1 :: 64 word));
              slot = ffzl (masked OR random_split)
          in if SLOT_RANDOMIZE cfg \<and> slot \<noteq> 0 then Inr (slot - 1)
             else Inr (ffzl masked - 1))"

definition has_free_slots :: "size_t \<Rightarrow> slab_metadata \<Rightarrow> bool" where
  "has_free_slots slots metadata =
    (let slots = (if slots > 64 then 64 else slots);
         masked = bitmap metadata OR get_mask slots
     in masked \<noteq> - 1)"

definition is_free_slab :: "slab_metadata \<Rightarrow> bool" where
  "is_free_slab metadata = (bitmap metadata = 0)"

text \<open>\<^verbatim>\<open>get_metadata\<close>; \<open>slab_size\<close> is the divisor \<^verbatim>\<open>c->slab_size_divisor\<close>.\<close>

definition get_metadata :: "size_class \<Rightarrow> size_t \<Rightarrow> ptr \<Rightarrow> failure + nat" where
  "get_metadata c slab_size p =
    (let offset = p - class_region_start c;
         index = offset div slab_size
     in if index \<ge> metadata_allocated c
        then Inl (Fatal ''invalid free within a slab yet to be used'')
        else Inr (unat index))"

definition slot_pointer :: "size_t \<Rightarrow> ptr \<Rightarrow> size_t \<Rightarrow> ptr" where
  "slot_pointer sz slab slot = slab + slot * sz"

text \<open>\<^verbatim>\<open>write_after_free_check\<close>: the loop reads the 64-bit words at
  \<open>p, p + 8, ...\<close> below \<open>p + sz\<close>.\<close>

definition write_after_free_check :: "config \<Rightarrow> (ptr \<Rightarrow> 8 word) \<Rightarrow> ptr \<Rightarrow> size_t \<Rightarrow> failure option" where
  "write_after_free_check cfg mem p sz =
    (if \<not> WRITE_AFTER_FREE_CHECK cfg then None
     else if list_all (\<lambda>i. load_u64 (little_endian cfg) mem (p + 8 * of_nat i) = 0)
               [0..<(unat sz + 7) div 8]
          then None
          else Some (Fatal ''detected write after free''))"

definition canary_mask :: "config \<Rightarrow> 64 word" where
  "canary_mask cfg = (if little_endian cfg then 0xffffffffffffff00 else 0x00ffffffffffffff)"

definition set_canary :: "config \<Rightarrow> slab_metadata \<Rightarrow> (ptr \<Rightarrow> 8 word) \<Rightarrow> ptr \<Rightarrow> size_t \<Rightarrow> (ptr \<Rightarrow> 8 word)" where
  "set_canary cfg metadata mem p sz =
    (if canary_size cfg = 0 then mem
     else store_u64 (little_endian cfg) mem (p + sz - canary_size cfg) (canary_value metadata))"

definition md_update :: "size_class \<Rightarrow> nat \<Rightarrow> (slab_metadata \<Rightarrow> slab_metadata) \<Rightarrow> size_class" where
  "md_update c m f = c\<lparr>slab_info := (slab_info c)(m := f (slab_info c m))\<rparr>"

text \<open>
  The block that ends each of the four paths of \<^verbatim>\<open>allocate_small\<close>:
  \<^verbatim>\<open>if (requested_size) { write_after_free_check(p, size - canary_size); set_canary(metadata, p, size); }\<close>
  and the return of \<open>p\<close>; the check is there on the partial and the empty path only
  (\<open>check\<close>).
\<close>

definition finish_slot :: "config \<Rightarrow> bool \<Rightarrow> allocator \<Rightarrow> nat \<Rightarrow> size_class \<Rightarrow> nat \<Rightarrow> ptr \<Rightarrow> size_t \<Rightarrow> size_t
    \<Rightarrow> failure + (ptr \<times> allocator)" where
  "finish_slot cfg check s cl c metadata p sz requested_size =
    (if requested_size \<noteq> 0 then
       (case (if check then write_after_free_check cfg (memory s) p (sz - canary_size cfg) else None) of
          Some f \<Rightarrow> Inl f
        | None \<Rightarrow>
            Inr (p, s\<lparr>size_class_metadata := (size_class_metadata s)(cl := c),
                      memory := set_canary cfg (slab_info c metadata) (memory s) p sz\<rparr>))
     else Inr (p, s\<lparr>size_class_metadata := (size_class_metadata s)(cl := c)\<rparr>))"

text \<open>\<^verbatim>\<open>get_free_slot\<close>, \<^verbatim>\<open>set_slot\<close> and \<^verbatim>\<open>slot_pointer\<close> on the slab
  \<open>metadata\<close>, as every path of \<^verbatim>\<open>allocate_small\<close> has them.\<close>

definition take_slot :: "config \<Rightarrow> env \<Rightarrow> size_class \<Rightarrow> size_t \<Rightarrow> nat \<Rightarrow> failure + (size_t \<times> size_class)" where
  "take_slot cfg e c slots metadata =
    (case get_free_slot cfg e slots (slab_info c metadata) of
       Inl f \<Rightarrow> Inl f
     | Inr slot \<Rightarrow>
         (case set_slot (slab_info c metadata) slot of
            Inl f \<Rightarrow> Inl f
          | Inr md \<Rightarrow> Inr (slot, c\<lparr>slab_info := (slab_info c)(metadata := md)\<rparr>)))"

text \<open>\<^verbatim>\<open>allocate_small\<close>, the path through a cached empty slab.\<close>

definition allocate_small_empty :: "config \<Rightarrow> env \<Rightarrow> allocator \<Rightarrow> nat \<Rightarrow> size_t \<Rightarrow> size_t \<Rightarrow> size_t \<Rightarrow> size_t \<Rightarrow> nat
    \<Rightarrow> failure + (ptr \<times> allocator)" where
  "allocate_small_empty cfg e s cl sz slots slab_size requested_size metadata =
    (let c = size_class_metadata s cl;
         c = c\<lparr>empty_slabs := nxt (slab_info c metadata),
               empty_slabs_total := empty_slabs_total c - slab_size\<rparr>;
         c = md_update c metadata (\<lambda>m. m\<lparr>nxt := None, prv := None\<rparr>);
         c = c\<lparr>partial_slabs := Some metadata\<rparr>;
         slab = get_slab c slab_size metadata
     in case take_slot cfg e c slots metadata of
          Inl f \<Rightarrow> Inl f
        | Inr (slot, c) \<Rightarrow>
            finish_slot cfg True s cl c metadata (slot_pointer sz slab slot) sz requested_size)"

text \<open>The path through the head of the free list. The canary is drawn before
  \<^verbatim>\<open>memory_protect_rw\<close>, and stays when that fails.\<close>

definition allocate_small_free :: "config \<Rightarrow> env \<Rightarrow> allocator \<Rightarrow> nat \<Rightarrow> size_t \<Rightarrow> size_t \<Rightarrow> size_t \<Rightarrow> size_t \<Rightarrow> nat
    \<Rightarrow> failure + (ptr \<times> allocator)" where
  "allocate_small_free cfg e s cl sz slots slab_size requested_size metadata =
    (let c = size_class_metadata s cl;
         c = md_update c metadata (\<lambda>m. m\<lparr>canary_value := rand_u64 e\<rparr>);
         slab = get_slab c slab_size metadata
     in if requested_size \<noteq> 0 \<and> protect_slab_fails e
        then Inr (0, s\<lparr>size_class_metadata := (size_class_metadata s)(cl := c)\<rparr>)
        else
          let c = c\<lparr>free_slabs_head := nxt (slab_info c metadata)\<rparr>;
              c = (if free_slabs_head c = None then c\<lparr>free_slabs_tail := None\<rparr> else c);
              c = md_update c metadata (\<lambda>m. m\<lparr>nxt := None, prv := None\<rparr>);
              c = c\<lparr>partial_slabs := Some metadata\<rparr>
          in case take_slot cfg e c slots metadata of
               Inl f \<Rightarrow> Inl f
             | Inr (slot, c) \<Rightarrow>
                 finish_slot cfg False s cl c metadata (slot_pointer sz slab slot) sz requested_size)"

text \<open>The path through a new metadata entry.\<close>

definition allocate_small_new :: "config \<Rightarrow> env \<Rightarrow> allocator \<Rightarrow> nat \<Rightarrow> size_t \<Rightarrow> size_t \<Rightarrow> size_t \<Rightarrow> size_t
    \<Rightarrow> failure + (ptr \<times> allocator)" where
  "allocate_small_new cfg e s cl sz slots slab_size requested_size =
    (case alloc_metadata cfg e (size_class_metadata s cl) slab_size (requested_size \<noteq> 0) of
       (None, c) \<Rightarrow> Inr (0, s\<lparr>size_class_metadata := (size_class_metadata s)(cl := c)\<rparr>)
     | (Some metadata, c) \<Rightarrow>
         let c = md_update c metadata (\<lambda>m. m\<lparr>canary_value := rand_u64 e AND canary_mask cfg\<rparr>);
             c = c\<lparr>partial_slabs := Some metadata\<rparr>;
             slab = get_slab c slab_size metadata
         in case take_slot cfg e c slots metadata of
              Inl f \<Rightarrow> Inl f
            | Inr (slot, c) \<Rightarrow>
                finish_slot cfg False s cl c metadata (slot_pointer sz slab slot) sz requested_size)"

text \<open>The path through the head of the partial list.\<close>

definition allocate_small_partial :: "config \<Rightarrow> env \<Rightarrow> allocator \<Rightarrow> nat \<Rightarrow> size_t \<Rightarrow> size_t \<Rightarrow> size_t \<Rightarrow> size_t \<Rightarrow> nat
    \<Rightarrow> failure + (ptr \<times> allocator)" where
  "allocate_small_partial cfg e s cl sz slots slab_size requested_size metadata =
    (case take_slot cfg e (size_class_metadata s cl) slots metadata of
       Inl f \<Rightarrow> Inl f
     | Inr (slot, c) \<Rightarrow>
         let c = (if \<not> has_free_slots slots (slab_info c metadata) then
                    (let c = c\<lparr>partial_slabs := nxt (slab_info c metadata)\<rparr> in
                     case partial_slabs c of
                       Some h \<Rightarrow> md_update c h (\<lambda>m. m\<lparr>prv := None\<rparr>)
                     | None \<Rightarrow> c)
                  else c);
             slab = get_slab c slab_size metadata
         in finish_slot cfg True s cl c metadata (slot_pointer sz slab slot) sz requested_size)"

definition allocate_small :: "config \<Rightarrow> env \<Rightarrow> allocator \<Rightarrow> size_t \<Rightarrow> failure + (ptr \<times> allocator)" where
  "allocate_small cfg e s requested_size =
    (case get_size_info requested_size of
       Inl f \<Rightarrow> Inl f
     | Inr info \<Rightarrow>
         let sz = (if si_size info \<noteq> 0 then si_size info else 16);
             cl = si_class info;
             c = size_class_metadata s cl;
             slots = size_class_slots ! cl;
             slab_size = get_slab_size slots sz
         in case partial_slabs c of
              None \<Rightarrow>
                (case empty_slabs c of
                   Some metadata \<Rightarrow>
                     allocate_small_empty cfg e s cl sz slots slab_size requested_size metadata
                 | None \<Rightarrow>
                     (case free_slabs_head c of
                        Some metadata \<Rightarrow>
                          allocate_small_free cfg e s cl sz slots slab_size requested_size metadata
                      | None \<Rightarrow>
                          allocate_small_new cfg e s cl sz slots slab_size requested_size))
            | Some metadata \<Rightarrow>
                allocate_small_partial cfg e s cl sz slots slab_size requested_size metadata)"

definition slab_size_class :: "allocator \<Rightarrow> ptr \<Rightarrow> size_t" where
  "slab_size_class s p = (p - slab_region_start s) div real_class_region_size"

definition slab_usable_size :: "allocator \<Rightarrow> ptr \<Rightarrow> size_t" where
  "slab_usable_size s p = size_classes ! unat (slab_size_class s p)"

definition enqueue_free_slab :: "size_class \<Rightarrow> nat \<Rightarrow> size_class" where
  "enqueue_free_slab c metadata =
    (let c = md_update c metadata (\<lambda>m. m\<lparr>nxt := None\<rparr>);
         c = (case free_slabs_tail c of
                Some t \<Rightarrow> md_update c t (\<lambda>m. m\<lparr>nxt := Some metadata\<rparr>)
              | None \<Rightarrow> c\<lparr>free_slabs_head := Some metadata\<rparr>)
     in c\<lparr>free_slabs_tail := Some metadata\<rparr>)"

text \<open>The first block of \<^verbatim>\<open>deallocate_small\<close> after the checks: a slab without a
  free slot is pushed on the partial list.\<close>

definition push_partial :: "size_class \<Rightarrow> nat \<Rightarrow> size_class" where
  "push_partial c metadata =
    (let c = md_update c metadata (\<lambda>m. m\<lparr>nxt := partial_slabs c, prv := None\<rparr>);
         c = (case partial_slabs c of
                Some h \<Rightarrow> md_update c h (\<lambda>m. m\<lparr>prv := Some metadata\<rparr>)
              | None \<Rightarrow> c)
     in c\<lparr>partial_slabs := Some metadata\<rparr>)"

text \<open>The block of \<^verbatim>\<open>deallocate_small\<close> that takes an empty slab out of the
  partial list.\<close>

definition unlink_partial :: "size_class \<Rightarrow> nat \<Rightarrow> size_class" where
  "unlink_partial c metadata =
    (let c = (case prv (slab_info c metadata) of
                Some pr \<Rightarrow> md_update c pr (\<lambda>m. m\<lparr>nxt := nxt (slab_info c metadata)\<rparr>)
              | None \<Rightarrow> c\<lparr>partial_slabs := nxt (slab_info c metadata)\<rparr>);
         c = (case nxt (slab_info c metadata) of
                Some nx \<Rightarrow> md_update c nx (\<lambda>m. m\<lparr>prv := prv (slab_info c metadata)\<rparr>)
              | None \<Rightarrow> c)
     in md_update c metadata (\<lambda>m. m\<lparr>prv := None\<rparr>))"

text \<open>The test of \<^verbatim>\<open>deallocate_small\<close> under which the pages of a slab that has
  become empty are dropped: the cache budget is exceeded, and \<^verbatim>\<open>memory_map_fixed\<close>,
  called only then, succeeds.\<close>

definition slab_purged :: "env \<Rightarrow> size_class \<Rightarrow> size_t \<Rightarrow> bool" where
  "slab_purged e c slab_size =
    (empty_slabs_total c + slab_size > max_empty_slabs_total \<and> \<not> map_fixed_fails e)"

text \<open>The end of \<^verbatim>\<open>deallocate_small\<close> for a slab that has become empty: to the
  free list when its pages are dropped, to the empty list otherwise. The flag tells
  whether the pages were dropped.\<close>

definition retire_slab :: "env \<Rightarrow> size_class \<Rightarrow> size_t \<Rightarrow> nat \<Rightarrow> size_class \<times> bool" where
  "retire_slab e c slab_size metadata =
    (let c = unlink_partial c metadata in
     if slab_purged e c slab_size
     then (enqueue_free_slab c metadata, True)
     else
       let c = md_update c metadata (\<lambda>m. m\<lparr>nxt := empty_slabs c\<rparr>);
           c = c\<lparr>empty_slabs := Some metadata\<rparr>
       in (c\<lparr>empty_slabs_total := empty_slabs_total c + slab_size\<rparr>, False))"

text \<open>
  The part of \<^verbatim>\<open>deallocate_small\<close> that updates the metadata, after the checks on
  the pointer and its contents: a slab without a free slot goes to the partial list, the
  bit of the slot is cleared, and a slab that has become empty is retired.
\<close>

definition release_slot :: "env \<Rightarrow> size_class \<Rightarrow> size_t \<Rightarrow> size_t \<Rightarrow> nat \<Rightarrow> size_t
    \<Rightarrow> failure + (size_class \<times> bool)" where
  "release_slot e c slots slab_size metadata slot =
    (let c = (if \<not> has_free_slots slots (slab_info c metadata)
              then push_partial c metadata else c)
     in case clear_slot (slab_info c metadata) slot of
          Inl f \<Rightarrow> Inl f
        | Inr md \<Rightarrow>
            let c = c\<lparr>slab_info := (slab_info c)(metadata := md)\<rparr>
            in Inr (if is_free_slab (slab_info c metadata)
                    then retire_slab e c slab_size metadata else (c, False)))"

text \<open>
  \<^verbatim>\<open>deallocate_small\<close>; \<open>expected_size\<close> is \<open>None\<close> for a NULL \<^verbatim>\<open>expected_size\<close>.
  \<^verbatim>\<open>libdivide_u32_do\<close> takes the offset in the slab as a \<^verbatim>\<open>uint32_t\<close>. The pages
  of a slab that \<^verbatim>\<open>memory_map_fixed\<close> has dropped read as zero.
\<close>

definition deallocate_small :: "config \<Rightarrow> env \<Rightarrow> allocator \<Rightarrow> ptr \<Rightarrow> size_t option \<Rightarrow> failure + allocator" where
  "deallocate_small cfg e s p expected_size =
    (let cl = unat (slab_size_class s p);
         c = size_class_metadata s cl;
         sz = size_classes ! cl
     in if (case expected_size of Some x \<Rightarrow> sz \<noteq> x | None \<Rightarrow> False)
        then Inl (Fatal ''sized deallocation mismatch'')
        else
          let is_zero_size = (sz = 0);
              sz = (if is_zero_size then 16 else sz);
              slots = size_class_slots ! cl;
              slab_size = get_slab_size slots sz
          in case get_metadata c slab_size p of
               Inl f \<Rightarrow> Inl f
             | Inr metadata \<Rightarrow>
                 let slab = get_slab c slab_size metadata;
                     slot = (ucast ((ucast (p - slab) :: 32 word) div ucast sz) :: size_t)
                 in if slot_pointer sz slab slot \<noteq> p then Inl (Fatal ''invalid unaligned free'')
                    else
                      (case get_slot (slab_info c metadata) slot of
                         Inl f \<Rightarrow> Inl f
                       | Inr live \<Rightarrow>
                           if \<not> live then Inl (Fatal ''double free'')
                           else
                             let mem = (if \<not> is_zero_size \<and> ZERO_ON_FREE cfg
                                        then memset_zero (memory s) p (sz - canary_size cfg)
                                        else memory s)
                             in if \<not> is_zero_size \<and> canary_size cfg \<noteq> 0 \<and>
                                   load_u64 (little_endian cfg) mem (p + sz - canary_size cfg)
                                     \<noteq> canary_value (slab_info c metadata)
                                then Inl (Fatal ''canary corrupted'')
                                else
                                  (case release_slot e c slots slab_size metadata slot of
                                     Inl f \<Rightarrow> Inl f
                                   | Inr (c, purged) \<Rightarrow>
                                       Inr (s\<lparr>size_class_metadata :=
                                                   (size_class_metadata s)(cl := c),
                                                 memory := (if purged
                                                            then memset_zero mem slab slab_size
                                                            else mem)\<rparr>))))"

section \<open>Initialisation\<close>

text \<open>
  The body of the loop over the classes in \<^verbatim>\<open>init_slow_path\<close>. The draw
  \<^verbatim>\<open>get_random_u64_uniform(&regions_rng, bound)\<close> is \<open>class_gap e cl\<close>; the pages of
  the fresh metadata array read as zero. The lock, the random state and the two
  divisors are not part of the record.
\<close>

definition init_class :: "env \<Rightarrow> ptr \<Rightarrow> nat \<Rightarrow> size_class \<Rightarrow> failure + size_class" where
  "init_class e start cl c =
    (let gap = (class_gap e cl + 1) * PAGE_SIZE;
         c = c\<lparr>class_region_start := start + real_class_region_size * of_nat cl + gap\<rparr>
     in if \<not> slab_info_ok e cl then Inl (Fatal ''failed to allocate slab metadata'')
        else
          let c = c\<lparr>slab_info := (\<lambda>_. zero_metadata), metadata_allocated := PAGE_SIZE div 32\<rparr>
          in if protect_slab_info_fails e cl then Inl (Fatal ''failed to allocate initial slab info'')
             else Inr c)"

fun init_classes :: "env \<Rightarrow> ptr \<Rightarrow> nat list \<Rightarrow> (nat \<Rightarrow> size_class) \<Rightarrow> failure + (nat \<Rightarrow> size_class)" where
  "init_classes e start [] scm = Inr scm"
| "init_classes e start (cl # cls) scm =
    (case init_class e start cl (scm cl) of
       Inl f \<Rightarrow> Inl f
     | Inr c \<Rightarrow> init_classes e start cls (scm(cl := c)))"

text \<open>\<^verbatim>\<open>init_slow_path\<close>. The slab region is mapped afresh by
  \<^verbatim>\<open>memory_map(slab_region_size)\<close>.\<close>

definition init_slow_path :: "env \<Rightarrow> allocator \<Rightarrow> failure + allocator" where
  "init_slow_path e s =
    (if initialized s then Inr s
     else if sysconf_pagesize e \<noteq> PAGE_SIZE then Inl (Fatal ''page size mismatch'')
     else if \<not> regions_buf_ok e 0 \<or> \<not> regions_buf_ok e 1
       then Inl (Fatal ''failed to reserve memory for regions table'')
     else if protect_regions_init_fails e
       then Inl (Fatal ''failed to unprotect memory for regions table'')
     else if slab_region e = 0 then Inl (Fatal ''failed to allocate slab region'')
     else
       (case init_classes e (slab_region e) [0..<N_SIZE_CLASSES] (size_class_metadata s) of
          Inl f \<Rightarrow> Inl f
        | Inr scm \<Rightarrow>
            if protect_ro_fails e then Inl (Fatal ''failed to protect allocator data'')
            else if atfork_fails e then Inl (Fatal ''pthread_atfork failed'')
            else
              Inr (s\<lparr>slab_region_start := slab_region e,
                     slab_region_end := slab_region e + slab_region_size,
                     initialized := True,
                     size_class_metadata := scm,
                     rt := (rt s)\<lparr>regions :=
                             replicate (unat (regions_total (rt s))) null_region\<rparr>,
                     memory := memset_zero (memory s) (slab_region e) slab_region_size\<rparr>)))"

definition init :: "env \<Rightarrow> allocator \<Rightarrow> failure + allocator" where
  "init e s = (if \<not> initialized s then init_slow_path e s else Inr s)"

section \<open>The dispatcher\<close>

definition get_guard_size :: "env \<Rightarrow> size_t \<Rightarrow> size_t" where
  "get_guard_size e sz = (rand_guard e + 1) * PAGE_SIZE"

text \<open>The part of \<^verbatim>\<open>allocate\<close> after the test of the size: a guarded page allocation
  (\<^verbatim>\<open>allocate_pages(size, guard_size, true)\<close>, fresh pages), registered in the region
  table. The draw of \<^verbatim>\<open>get_guard_size\<close> is \<open>rand_guard\<close>, whatever its bound.\<close>

definition allocate_large :: "env \<Rightarrow> allocator \<Rightarrow> size_t \<Rightarrow> failure + (ptr \<times> allocator)" where
  "allocate_large e s sz =
    (let guard_size = get_guard_size e sz;
         p = pages e
     in if p = 0 then Inr (0, s)
        else
          (case regions_insert e (rt s) p sz guard_size of
             Inl f \<Rightarrow> Inl f
           | Inr (rc, t) \<Rightarrow>
               if rc \<noteq> 0 then Inr (0, s)
               else Inr (p, s\<lparr>rt := t, memory := memset_zero (memory s) p sz\<rparr>)))"

definition allocate :: "config \<Rightarrow> env \<Rightarrow> allocator \<Rightarrow> size_t \<Rightarrow> failure + (ptr \<times> allocator)" where
  "allocate cfg e s sz =
    (if sz \<le> max_slab_size_class then allocate_small cfg e s sz
     else allocate_large e s sz)"

definition deallocate_large :: "allocator \<Rightarrow> ptr \<Rightarrow> size_t option \<Rightarrow> failure + allocator" where
  "deallocate_large s p expected_size =
    (if \<not> initialized s then Inl (Fatal ''invalid uninitialized allocator usage'')
     else
       (case regions_find (rt s) p of
          None \<Rightarrow> Inl Hang
        | Some None \<Rightarrow> Inl (Fatal ''invalid free'')
        | Some (Some region) \<Rightarrow>
            let sz = r_size (regions (rt s) ! unat region) in
            if (case expected_size of Some x \<Rightarrow> sz \<noteq> x | None \<Rightarrow> False)
            then Inl (Fatal ''sized deallocation mismatch'')
            else
              (case regions_delete (rt s) region of
                 None \<Rightarrow> Inl Hang
               | Some t \<Rightarrow> Inr (s\<lparr>rt := t\<rparr>))))"

definition adjust_size_for_canaries :: "config \<Rightarrow> size_t \<Rightarrow> size_t" where
  "adjust_size_for_canaries cfg sz =
    (if sz > 0 \<and> sz \<le> max_slab_size_class then sz + canary_size cfg else sz)"

definition h_malloc :: "config \<Rightarrow> env \<Rightarrow> allocator \<Rightarrow> size_t \<Rightarrow> failure + (ptr \<times> allocator)" where
  "h_malloc cfg e s sz =
    (case init e s of
       Inl f \<Rightarrow> Inl f
     | Inr s \<Rightarrow> allocate cfg e s (adjust_size_for_canaries cfg sz))"

text \<open>\<^verbatim>\<open>h_calloc\<close>; \<^verbatim>\<open>__builtin_mul_overflow\<close> is the test on the product of the
  two numbers.\<close>

definition h_calloc :: "config \<Rightarrow> env \<Rightarrow> allocator \<Rightarrow> size_t \<Rightarrow> size_t \<Rightarrow> failure + (ptr \<times> allocator)" where
  "h_calloc cfg e s nmemb sz =
    (if unat nmemb * unat sz \<ge> 2 ^ 64 then Inr (0, s)
     else
       (case init e s of
          Inl f \<Rightarrow> Inl f
        | Inr s \<Rightarrow>
            let total_size = adjust_size_for_canaries cfg (nmemb * sz) in
            if ZERO_ON_FREE cfg then allocate cfg e s total_size
            else
              (case allocate cfg e s total_size of
                 Inl f \<Rightarrow> Inl f
               | Inr (p, s) \<Rightarrow>
                   if p = 0 then Inr (0, s)
                   else if sz \<noteq> 0 \<and> sz \<le> max_slab_size_class
                     then Inr (p, s\<lparr>memory := memset_zero (memory s) p (total_size - canary_size cfg)\<rparr>)
                     else Inr (p, s))))"

definition mremap_threshold :: size_t where
  "mremap_threshold = 4 * 1024 * 1024"

definition region_set_size :: "allocator \<Rightarrow> size_t \<Rightarrow> size_t \<Rightarrow> allocator" where
  "region_set_size s region sz =
    s\<lparr>rt := (rt s)\<lparr>regions := (regions (rt s))[unat region :=
                       (regions (rt s) ! unat region)\<lparr>r_size := sz\<rparr>]\<rparr>\<rparr>"

text \<open>The end of \<^verbatim>\<open>h_realloc\<close>: allocate, copy, free the old allocation.\<close>

definition realloc_move :: "config \<Rightarrow> env \<Rightarrow> allocator \<Rightarrow> ptr \<Rightarrow> size_t \<Rightarrow> size_t \<Rightarrow> failure + (ptr \<times> allocator)" where
  "realloc_move cfg e s old sz old_size =
    (case allocate cfg e s sz of
       Inl f \<Rightarrow> Inl f
     | Inr (new, s) \<Rightarrow>
         if new = 0 then Inr (0, s)
         else
           let copy_size = (if sz < old_size then sz else old_size);
               copy_size = (if sz > 0 \<and> sz \<le> max_slab_size_class
                            then copy_size - canary_size cfg else copy_size);
               s = s\<lparr>memory := memcpy_bytes (memory s) new old copy_size\<rparr>
           in case (if old_size \<le> max_slab_size_class then deallocate_small cfg e s old None
                    else deallocate_large s old None) of
                Inl f \<Rightarrow> Inl f
              | Inr s \<Rightarrow> Inr (new, s))"

text \<open>
  \<^verbatim>\<open>h_realloc\<close>. The page provider's \<^verbatim>\<open>memory_unmap\<close>, \<^verbatim>\<open>deallocate_pages\<close> and
  a successful \<^verbatim>\<open>memory_remap_fixed\<close> change mappings only; after the remap the new
  range holds what the old one held.
\<close>

definition h_realloc :: "config \<Rightarrow> env \<Rightarrow> allocator \<Rightarrow> ptr \<Rightarrow> size_t \<Rightarrow> failure + (ptr \<times> allocator)" where
  "h_realloc cfg e s old sz =
    (if old = 0 then
       (case init e s of
          Inl f \<Rightarrow> Inl f
        | Inr s \<Rightarrow> allocate cfg e s (adjust_size_for_canaries cfg sz))
     else
       let sz = adjust_size_for_canaries cfg sz in
       if old \<ge> slab_region_start s \<and> old < slab_region_end s then
         (let old_size = slab_usable_size s old in
          if sz \<le> max_slab_size_class \<and>
             (case get_size_info sz of Inr info \<Rightarrow> si_size info = old_size | Inl f \<Rightarrow> False)
          then Inr (old, s)
          else realloc_move cfg e s old sz old_size)
       else if \<not> initialized s then Inl (Fatal ''invalid uninitialized allocator usage'')
       else
         (case regions_find (rt s) old of
            None \<Rightarrow> Inl Hang
          | Some None \<Rightarrow> Inl (Fatal ''invalid realloc'')
          | Some (Some region) \<Rightarrow>
              let old_size = r_size (regions (rt s) ! unat region);
                  old_guard_size = r_guard_size (regions (rt s) ! unat region)
              in if PAGE_CEILING old_size = PAGE_CEILING sz
                 then Inr (old, region_set_size s region sz)
                 else if sz < old_size \<and> sz > max_slab_size_class then
                   (if map_fixed_guard_fails e then Inr (0, s)
                    else
                      (case regions_find (rt s) old of
                         None \<Rightarrow> Inl Hang
                       | Some None \<Rightarrow> Inl (Fatal ''invalid realloc'')
                       | Some (Some region) \<Rightarrow> Inr (old, region_set_size s region sz)))
                 else if (if sz < old_size then sz else old_size) \<ge> mremap_threshold then
                   (case allocate cfg e s sz of
                      Inl f \<Rightarrow> Inl f
                    | Inr (new, s) \<Rightarrow>
                        if new = 0 then Inr (0, s)
                        else
                          (case regions_find (rt s) old of
                             None \<Rightarrow> Inl Hang
                           | Some None \<Rightarrow> Inl (Fatal ''invalid realloc'')
                           | Some (Some region) \<Rightarrow>
                               (case regions_delete (rt s) region of
                                  None \<Rightarrow> Inl Hang
                                | Some t \<Rightarrow>
                                    Inr (new, s\<lparr>rt := t,
                                                memory := memcpy_bytes (memory s) new old
                                                  (if sz < old_size then sz else old_size)\<rparr>))))
                 else realloc_move cfg e s old sz old_size))"

definition h_free :: "config \<Rightarrow> env \<Rightarrow> allocator \<Rightarrow> ptr \<Rightarrow> failure + allocator" where
  "h_free cfg e s p =
    (if p = 0 then Inr s
     else if p \<ge> slab_region_start s \<and> p < slab_region_end s then deallocate_small cfg e s p None
     else deallocate_large s p None)"

definition h_free_sized :: "config \<Rightarrow> env \<Rightarrow> allocator \<Rightarrow> ptr \<Rightarrow> size_t \<Rightarrow> failure + allocator" where
  "h_free_sized cfg e s p expected_size =
    (if p = 0 then Inr s
     else if p \<ge> slab_region_start s \<and> p < slab_region_end s then
       (case get_size_info (adjust_size_for_canaries cfg expected_size) of
          Inl f \<Rightarrow> Inl f
        | Inr info \<Rightarrow> deallocate_small cfg e s p (Some (si_size info)))
     else deallocate_large s p (Some expected_size))"

text \<open>\<^verbatim>\<open>h_malloc_usable_size\<close>; on a miss \<^verbatim>\<open>region\<close> is NULL and is dereferenced.\<close>

definition h_malloc_usable_size :: "config \<Rightarrow> allocator \<Rightarrow> ptr \<Rightarrow> failure + size_t" where
  "h_malloc_usable_size cfg s p =
    (if p = 0 then Inr 0
     else if p \<ge> slab_region_start s \<and> p < slab_region_end s then
       (let sz = slab_usable_size s p in
        Inr (if sz \<noteq> 0 then sz - canary_size cfg else 0))
     else if \<not> initialized s then Inl (Fatal ''invalid uninitialized allocator usage'')
     else
       (case regions_find (rt s) p of
          None \<Rightarrow> Inl Hang
        | Some None \<Rightarrow> Inl Crash
        | Some (Some region) \<Rightarrow> Inr (r_size (regions (rt s) ! unat region))))"

section \<open>Sequences of operations on the region table\<close>

text \<open>
  The region table is changed by \<^verbatim>\<open>regions_insert\<close> (from \<^verbatim>\<open>allocate\<close> and
  \<^verbatim>\<open>alloc_aligned\<close>, with the pointer the page provider returned) and by
  \<^verbatim>\<open>regions_delete\<close> (from \<^verbatim>\<open>deallocate_large\<close> and \<^verbatim>\<open>h_realloc\<close>, on the slot
  \<^verbatim>\<open>regions_find\<close> returned, after the fatal error \<^verbatim>\<open>invalid free\<close> on a miss).
  \<open>regions_init\<close> is the table \<^verbatim>\<open>init_slow_path\<close> leaves behind.
\<close>

datatype region_op = Insert ptr size_t size_t | Delete ptr

definition regions_init :: region_table where
  "regions_init =
    \<lparr>regions = replicate (unat initial_region_table_size) null_region,
     regions_total = initial_region_table_size,
     regions_free = initial_region_table_size,
     regions_spare = []\<rparr>"

fun region_step :: "region_table \<Rightarrow> env \<times> region_op \<Rightarrow> failure + region_table" where
  "region_step t (e, Insert p sz g) =
    (case regions_insert e t p sz g of Inl f \<Rightarrow> Inl f | Inr (rc, t') \<Rightarrow> Inr t')"
| "region_step t (e, Delete p) =
    (case regions_find t p of
       None \<Rightarrow> Inl Hang
     | Some None \<Rightarrow> Inl (Fatal ''invalid free'')
     | Some (Some region) \<Rightarrow>
         (case regions_delete t region of None \<Rightarrow> Inl Hang | Some t' \<Rightarrow> Inr t'))"

fun run_region_ops :: "region_table \<Rightarrow> (env \<times> region_op) list \<Rightarrow> failure + region_table" where
  "run_region_ops t [] = Inr t"
| "run_region_ops t (x # xs) =
    (case region_step t x of Inl f \<Rightarrow> Inl f | Inr t' \<Rightarrow> run_region_ops t' xs)"

text \<open>
  The pointers of a large allocation come from \<^verbatim>\<open>allocate_pages\<close>: they are not NULL
  (the callers check) and they are the base of a fresh mapping, so not the base of a
  region that is still registered.
\<close>

fun fresh_inserts :: "region_table \<Rightarrow> (env \<times> region_op) list \<Rightarrow> bool" where
  "fresh_inserts t [] = True"
| "fresh_inserts t ((e, Insert p sz g) # xs) =
    (p \<noteq> 0 \<and> p \<notin> r_p ` set (regions t) \<and>
     (case region_step t (e, Insert p sz g) of Inl f \<Rightarrow> True | Inr t' \<Rightarrow> fresh_inserts t' xs))"
| "fresh_inserts t ((e, Delete p) # xs) =
    (case region_step t (e, Delete p) of Inl f \<Rightarrow> True | Inr t' \<Rightarrow> fresh_inserts t' xs)"

text \<open>
  \<^verbatim>\<open>regions_grow\<close> ignores the result of the \<^verbatim>\<open>memory_map_fixed\<close> that drops the
  pages of the old table. In the sequences below that call does not fail.
\<close>

definition old_tables_dropped :: "(env \<times> region_op) list \<Rightarrow> bool" where
  "old_tables_dropped ops = list_all (\<lambda>x. \<not> map_fixed_regions_fails (fst x)) ops"

text \<open>The pointers registered and not deleted since, starting from the set \<open>S\<close>.\<close>

fun live_keys :: "region_table \<Rightarrow> (env \<times> region_op) list \<Rightarrow> ptr set \<Rightarrow> ptr set" where
  "live_keys t [] S = S"
| "live_keys t ((e, Insert p sz g) # xs) S =
    (case regions_insert e t p sz g of
       Inl f \<Rightarrow> S
     | Inr (rc, t') \<Rightarrow> live_keys t' xs (if rc = 0 then insert p S else S))"
| "live_keys t ((e, Delete p) # xs) S =
    (case region_step t (e, Delete p) of Inl f \<Rightarrow> S | Inr t' \<Rightarrow> live_keys t' xs (S - {p}))"

text \<open>The number of occupied slots; the load factor is \<open>occupied t / regions_total t\<close>.\<close>

definition occupied :: "region_table \<Rightarrow> nat" where
  "occupied t = length (filter (\<lambda>e. r_p e \<noteq> 0) (regions t))"

text \<open>Environments and operation sequences used to instantiate the theorems.\<close>

definition quiet_env :: env where
  "quiet_env =
    \<lparr>rand_u16 = 0, rand_u64 = 0, rand_guard = 0,
     protect_metadata_fails = False, protect_slab_fails = False, protect_regions_fails = False,
     map_fixed_regions_fails = False, map_fixed_fails = False, map_fixed_guard_fails = False, remap_fixed_fails = False,
     pages = 0, sysconf_pagesize = 4096, regions_buf_ok = (\<lambda>_. True),
     protect_regions_init_fails = False, slab_region = 0, class_gap = (\<lambda>_. 0),
     slab_info_ok = (\<lambda>_. True), protect_slab_info_fails = (\<lambda>_. False),
     protect_ro_fails = False, atfork_fails = False\<rparr>"

definition sample_region_ops :: "(env \<times> region_op) list" where
  "sample_region_ops =
    [(quiet_env, Insert 0x7f0000001000 20000 4096),
     (quiet_env, Insert 0x7f0000101000 30000 8192),
     (quiet_env, Insert 0x7f0000003000 30000 8192),
     (quiet_env, Delete 0x7f0000001000)]"



text \<open>Large allocations in a row, none freed, 64 KiB apart.\<close>

definition region_ptr :: "nat \<Rightarrow> ptr" where
  "region_ptr n = 0x7f0000000000 + 65536 * of_nat n"

definition overrun_region_ops :: "(env \<times> region_op) list" where
  "overrun_region_ops = map (\<lambda>n. (quiet_env, Insert (region_ptr n) 20000 4096)) [0..<786434]"

definition dn :: "nat \<Rightarrow> nat \<Rightarrow> nat \<Rightarrow> nat" where
  "dn N a t = (if t \<le> a then a - t else a + N - t)"

definition dist :: "nat \<Rightarrow> nat \<Rightarrow> nat \<Rightarrow> nat" where
  "dist N a b = (if b \<le> a then a - b else a + N - b)"

definition occ :: "region_info list \<Rightarrow> nat \<Rightarrow> bool" where
  "occ rs i = (r_p (rs ! i) \<noteq> 0)"

definition home :: "nat \<Rightarrow> ptr \<Rightarrow> nat" where
  "home k q = unat (hash_page q AND (2 ^ k - 1))"

definition probe_ok :: "nat \<Rightarrow> region_info list \<Rightarrow> bool" where
  "probe_ok k rs = (\<forall>i < 2 ^ k. occ rs i \<longrightarrow>
     (\<forall>t < dist (2 ^ k) (home k (r_p (rs ! i))) i. occ rs (dn (2 ^ k) (home k (r_p (rs ! i))) t)))"

definition keys_distinct :: "region_info list \<Rightarrow> bool" where
  "keys_distinct rs = (\<forall>i < length rs. \<forall>j < length rs. occ rs i \<and> r_p (rs ! i) = r_p (rs ! j) \<longrightarrow> i = j)"

definition nnull :: "region_info list \<Rightarrow> nat" where
  "nnull rs = length (filter (\<lambda>e. r_p e = 0) rs)"

definition keyset :: "region_info list \<Rightarrow> ptr set" where
  "keyset rs = {x. x \<noteq> 0 \<and> (\<exists>i < length rs. r_p (rs ! i) = x)}"

definition ainv :: "nat \<Rightarrow> region_info list \<Rightarrow> nat \<Rightarrow> bool" where
  "ainv k rs j = (\<forall>s < 2 ^ k. occ rs s \<longrightarrow>
     (\<forall>t < dist (2 ^ k) (home k (r_p (rs ! s))) s.
        occ rs (dn (2 ^ k) (home k (r_p (rs ! s))) t) \<or> dn (2 ^ k) (home k (r_p (rs ! s))) t = j))"

definition seg :: "nat \<Rightarrow> region_info list \<Rightarrow> nat \<Rightarrow> nat \<Rightarrow> bool" where
  "seg k rs j d = (\<forall>m. 1 \<le> m \<and> m \<le> d \<longrightarrow> occ rs (dn (2 ^ k) j m) \<and>
      0 < dist (2 ^ k) j (home k (r_p (rs ! dn (2 ^ k) j m))) \<and>
      dist (2 ^ k) j (home k (r_p (rs ! dn (2 ^ k) j m))) \<le> m)"

definition table_wf :: "nat \<Rightarrow> region_table \<Rightarrow> bool" where
  "table_wf k t = (8 \<le> k \<and> k \<le> 25 \<and> regions_total t = 2 ^ k \<and> length (regions t) = 2 ^ k \<and>
     unat (regions_free t) = nnull (regions t) \<and>
     probe_ok k (regions t) \<and> keys_distinct (regions t) \<and> regions_spare t = [])"

definition table_inv :: "region_table \<Rightarrow> bool" where
  "table_inv t = (\<exists>k. table_wf k t \<and> 2 ^ k \<le> 4 * (nnull (regions t) + 1))"

text \<open>
  The size \<open>T\<close> of a table that holds \<open>n\<close> entries after inserts only: an insert
  doubles the table when it finds more than three quarters of the slots occupied.
\<close>

definition grow_phase :: "nat \<Rightarrow> nat \<Rightarrow> bool" where
  "grow_phase T n = (4 * n \<le> 3 * T + 4 \<and> (T = 256 \<or> 3 * T + 16 \<le> 8 * n))"

section \<open>Definitions for the properties of the slab engine\<close>

text \<open>The object size and the slab size that \<^verbatim>\<open>allocate_small\<close>, \<^verbatim>\<open>deallocate_small\<close> and
  \<^verbatim>\<open>init_slow_path\<close> compute for a class.\<close>

definition class_size :: "nat \<Rightarrow> size_t" where
  "class_size cl = (if size_classes ! cl = 0 then 16 else size_classes ! cl)"

definition class_slab_size :: "nat \<Rightarrow> size_t" where
  "class_slab_size cl = get_slab_size (size_class_slots ! cl) (class_size cl)"





text \<open>Configurations, an environment and call sequences used to instantiate the theorems.\<close>

definition sample_config :: config where
  "sample_config = \<lparr>SLAB_CANARY = True, GUARD_SLABS = True, ZERO_ON_FREE = False,
     WRITE_AFTER_FREE_CHECK = False, SLOT_RANDOMIZE = True, little_endian = True\<rparr>"

definition hardened_config :: config where
  "hardened_config = \<lparr>SLAB_CANARY = True, GUARD_SLABS = True, ZERO_ON_FREE = True,
     WRITE_AFTER_FREE_CHECK = True, SLOT_RANDOMIZE = True, little_endian = True\<rparr>"

definition sample_env :: env where
  "sample_env = quiet_env\<lparr>slab_region := 0x100000000000, class_gap := (\<lambda>cl. of_nat cl),
     rand_u16 := 0, rand_u64 := 0x1122334455667788, pages := 0x7f0000001000\<rparr>"

fun mallocs :: "config \<Rightarrow> env \<Rightarrow> allocator \<Rightarrow> size_t list \<Rightarrow> failure + (ptr list \<times> allocator)" where
  "mallocs cfg e s [] = Inr ([], s)"
| "mallocs cfg e s (n # ns) =
    (case h_malloc cfg e s n of
       Inl f \<Rightarrow> Inl f
     | Inr (p, s) \<Rightarrow>
         (case mallocs cfg e s ns of
            Inl f \<Rightarrow> Inl f
          | Inr (ps, s) \<Rightarrow> Inr (p # ps, s)))"

fun frees :: "config \<Rightarrow> env \<Rightarrow> allocator \<Rightarrow> ptr list \<Rightarrow> failure + allocator" where
  "frees cfg e s [] = Inr s"
| "frees cfg e s (p # ps) =
    (case h_free cfg e s p of
       Inl f \<Rightarrow> Inl f
     | Inr s \<Rightarrow> frees cfg e s ps)"

definition sample_alloc :: "size_t \<Rightarrow> ptr \<times> allocator" where
  "sample_alloc n = projr (h_malloc hardened_config sample_env (start_state (\<lambda>_. 0)) n)"

subsection \<open>Cyclic index arithmetic\<close>

lemma dn_lt: "a < N \<Longrightarrow> dn N a t < N"
  by (auto simp: dn_def)

lemma dn_0: "dn N a 0 = a"
  by (simp add: dn_def)

lemma dn_dn1: "a < N \<Longrightarrow> t < N \<Longrightarrow> dn N (dn N a (Suc 0)) t = dn N a (Suc t)"
  by (auto simp: dn_def)

lemma dn_dist: "a < N \<Longrightarrow> b < N \<Longrightarrow> dn N a (dist N a b) = b"
  by (auto simp: dn_def dist_def)

lemma dist_lt: "a < N \<Longrightarrow> b < N \<Longrightarrow> dist N a b < N"
  by (auto simp: dist_def)

lemma dist_dn: "a < N \<Longrightarrow> t < N \<Longrightarrow> dist N a (dn N a t) = t"
  by (auto simp: dn_def dist_def)

lemma dn_inj: "a < N \<Longrightarrow> t < N \<Longrightarrow> u < N \<Longrightarrow> dn N a t = dn N a u \<Longrightarrow> t = u"
  by (metis dist_dn)

subsection \<open>Words and masks\<close>

lemma and_pow2_take_bit: "x AND (2 ^ k - 1 :: 64 word) = take_bit k x" 
  by (simp only: mask_eq_exp_minus_1 [symmetric] take_bit_eq_mask)

lemma unat_and_pow2: "unat (x AND (2 ^ k - 1 :: 64 word)) = unat x mod 2 ^ k"
  unfolding and_pow2_take_bit unsigned_take_bit_eq by (rule take_bit_eq_mod)

lemma unat_pow2: 
  assumes "k < 64" shows "unat (2 ^ k :: 64 word) = 2 ^ k"
proof -
  have lt: "(2::nat) ^ k < 2 ^ 64"
    by (rule power_strict_increasing) (use assms in simp_all)
  have "unat (word_of_nat (2 ^ k) :: 64 word) = 2 ^ k mod 2 ^ LENGTH(64)"
    by (rule unat_of_nat)
  moreover have "(word_of_nat (2 ^ k) :: 64 word) = 2 ^ k" by simp
  ultimately have "unat (2 ^ k :: 64 word) = 2 ^ k mod 2 ^ 64" by simp
  then show ?thesis using lt by (simp only: mod_less)
qed

lemma unat_and_pow2_lt: "unat (x AND (2 ^ k - 1 :: 64 word)) < 2 ^ k"
  by (simp only: unat_and_pow2) simp

lemma pow2_nonzero:
  assumes "k < 64" shows "(2 ^ k :: 64 word) \<noteq> 0"
proof
  assume "(2 ^ k :: 64 word) = 0"
  then have "unat (2 ^ k :: 64 word) = unat (0 :: 64 word)" by (rule arg_cong)
  then show False using unat_pow2 [OF assms] by simp
qed

lemma unat_pow2_minus1:
  assumes "k < 64" shows "unat (2 ^ k - 1 :: 64 word) = 2 ^ k - 1"
  using unat_minus_one [OF pow2_nonzero [OF assms]] unat_pow2 [OF assms] by simp

lemma unat_step:
  assumes k: "k < 64" and i: "unat (i :: 64 word) < 2 ^ k"
  shows "unat ((i - 1) AND (2 ^ k - 1)) = dn (2 ^ k) (unat i) (Suc 0)"
proof (cases "i = 0")
  case True
  have "((0 :: 64 word) - 1) AND (2 ^ k - 1) = 2 ^ k - 1" by simp
  then show ?thesis using True unat_pow2_minus1 [OF k] by (simp add: dn_def)
next
  case False
  then have "unat (i - 1) = unat i - 1"
    by (rule unat_minus_one)
  moreover have "1 \<le> unat i"
    using False by (simp add: Suc_le_eq unat_gt_0)
  ultimately show ?thesis using i by (simp add: unat_and_pow2 dn_def)
qed

subsection \<open>Probing\<close>

lemma probe_null_first:
  assumes k: "k < 64"
  shows "unat idx < 2 ^ k \<Longrightarrow> t < 2 ^ k \<Longrightarrow> \<not> occ rs (dn (2 ^ k) (unat idx) t) \<Longrightarrow>
    \<exists>t0 r. t0 \<le> t \<and> probe_null rs (2 ^ k - 1) idx = Some r \<and> unat r = dn (2 ^ k) (unat idx) t0 \<and>
      \<not> occ rs (unat r) \<and> (\<forall>u < t0. occ rs (dn (2 ^ k) (unat idx) u))"
proof (induction t arbitrary: idx)
  case 0
  then have "probe_null rs (2 ^ k - 1) idx = Some idx"
    by (subst probe_null.simps) (simp add: occ_def dn_0)
  with 0 show ?case by (auto simp: dn_0)
next
  case (Suc t)
  let ?N = "2 ^ k :: nat"
  let ?idx' = "(idx - 1) AND (2 ^ k - 1)"
  show ?case
  proof (cases "occ rs (unat idx)")
    case False
    then have "probe_null rs (2 ^ k - 1) idx = Some idx"
      by (subst probe_null.simps) (simp add: occ_def)
    with False show ?thesis by (auto simp: dn_0 intro!: exI [of _ 0])
  next
    case True
    have step: "unat ?idx' = dn ?N (unat idx) (Suc 0)"
      using k Suc.prems(1) by (rule unat_step)
    have lt': "unat ?idx' < ?N" by (rule unat_and_pow2_lt)
    have t: "t < ?N" using Suc.prems(2) by simp
    have dd: "\<And>u. u < ?N \<Longrightarrow> dn ?N (unat ?idx') u = dn ?N (unat idx) (Suc u)"
      using Suc.prems(1) by (simp add: step dn_dn1)
    have "\<not> occ rs (dn ?N (unat ?idx') t)"
      using Suc.prems(3) t by (simp add: dd)
    from Suc.IH [OF lt' t this] obtain t0 r where
      r: "t0 \<le> t" "probe_null rs (2 ^ k - 1) ?idx' = Some r" "unat r = dn ?N (unat ?idx') t0"
         "\<not> occ rs (unat r)" "\<forall>u < t0. occ rs (dn ?N (unat ?idx') u)"
      by blast
    have "probe_null rs (2 ^ k - 1) idx = Some r"
      using True r(2) by (subst probe_null.simps) (simp add: occ_def)
    moreover have "unat r = dn ?N (unat idx) (Suc t0)"
      using r(1,3) t by (simp add: dd)
    moreover have "\<forall>u < Suc t0. occ rs (dn ?N (unat idx) u)"
    proof (intro allI impI)
      fix u assume u: "u < Suc t0"
      show "occ rs (dn ?N (unat idx) u)"
      proof (cases u)
        case 0 then show ?thesis using True by (simp add: dn_0)
      next
        case (Suc v)
        then have "v < t0" using u by simp
        moreover from this have "v < ?N" using r(1) t by simp
        ultimately show ?thesis using r(5) Suc by (simp add: dd [symmetric])
      qed
    qed
    ultimately show ?thesis using r(1,4) by (intro exI [of _ "Suc t0"] exI [of _ r]) simp
  qed
qed

lemma find_loop_first:
  assumes k: "k < 64"
  shows "unat idx < 2 ^ k \<Longrightarrow> t < 2 ^ k \<Longrightarrow>
    (r_p (rs ! dn (2 ^ k) (unat idx) t) = p \<or> \<not> occ rs (dn (2 ^ k) (unat idx) t)) \<Longrightarrow>
    \<exists>t0 r. t0 \<le> t \<and> find_loop rs (2 ^ k - 1) p idx = Some r \<and> unat r = dn (2 ^ k) (unat idx) t0 \<and>
      (r_p (rs ! unat r) = p \<or> \<not> occ rs (unat r)) \<and>
      (\<forall>u < t0. r_p (rs ! dn (2 ^ k) (unat idx) u) \<noteq> p \<and> occ rs (dn (2 ^ k) (unat idx) u))"
proof (induction t arbitrary: idx)
  case 0
  then have "find_loop rs (2 ^ k - 1) p idx = Some idx"
    by (subst find_loop.simps) (auto simp: occ_def dn_0)
  with 0 show ?case by (auto simp: dn_0)
next
  case (Suc t)
  let ?N = "2 ^ k :: nat"
  let ?idx' = "(idx - 1) AND (2 ^ k - 1)"
  show ?case
  proof (cases "r_p (rs ! unat idx) = p \<or> \<not> occ rs (unat idx)")
    case True
    then have "find_loop rs (2 ^ k - 1) p idx = Some idx"
      by (subst find_loop.simps) (auto simp: occ_def)
    with True show ?thesis by (auto simp: dn_0 intro!: exI [of _ 0])
  next
    case False
    have step: "unat ?idx' = dn ?N (unat idx) (Suc 0)"
      using k Suc.prems(1) by (rule unat_step)
    have lt': "unat ?idx' < ?N" by (rule unat_and_pow2_lt)
    have t: "t < ?N" using Suc.prems(2) by simp
    have dd: "\<And>u. u < ?N \<Longrightarrow> dn ?N (unat ?idx') u = dn ?N (unat idx) (Suc u)"
      using Suc.prems(1) by (simp add: step dn_dn1)
    have "r_p (rs ! dn ?N (unat ?idx') t) = p \<or> \<not> occ rs (dn ?N (unat ?idx') t)"
      using Suc.prems(3) t by (simp add: dd)
    from Suc.IH [OF lt' t this] obtain t0 r where
      r: "t0 \<le> t" "find_loop rs (2 ^ k - 1) p ?idx' = Some r" "unat r = dn ?N (unat ?idx') t0"
         "r_p (rs ! unat r) = p \<or> \<not> occ rs (unat r)"
         "\<forall>u < t0. r_p (rs ! dn ?N (unat ?idx') u) \<noteq> p \<and> occ rs (dn ?N (unat ?idx') u)"
      by blast
    have "find_loop rs (2 ^ k - 1) p idx = Some r"
      using False r(2) by (subst find_loop.simps) (simp add: occ_def)
    moreover have "unat r = dn ?N (unat idx) (Suc t0)"
      using r(1,3) t by (simp add: dd)
    moreover have "\<forall>u < Suc t0. r_p (rs ! dn ?N (unat idx) u) \<noteq> p \<and> occ rs (dn ?N (unat idx) u)"
    proof (intro allI impI)
      fix u assume u: "u < Suc t0"
      show "r_p (rs ! dn ?N (unat idx) u) \<noteq> p \<and> occ rs (dn ?N (unat idx) u)"
      proof (cases u)
        case 0 then show ?thesis using False by (simp add: dn_0)
      next
        case (Suc v)
        then have "v < t0" using u by simp
        moreover from this have "v < ?N" using r(1) t by simp
        ultimately show ?thesis using r(5) Suc by (simp add: dd [symmetric])
      qed
    qed
    ultimately show ?thesis using r(1,4) by (intro exI [of _ "Suc t0"] exI [of _ r]) simp
  qed
qed

subsection \<open>The probe invariant\<close>

lemma home_lt: "home k q < 2 ^ k"
  unfolding home_def by (rule unat_and_pow2_lt)

lemma find_loop_present:
  assumes k: "k < 64" and len: "length rs = 2 ^ k" and ok: "probe_ok k rs" and dk: "keys_distinct rs"
    and i: "i < 2 ^ k" and oi: "occ rs i"
  shows "\<exists>r. find_loop rs (2 ^ k - 1) (r_p (rs ! i)) (hash_page (r_p (rs ! i)) AND (2 ^ k - 1)) = Some r
           \<and> unat r = i"
proof -
  let ?N = "2 ^ k :: nat"
  let ?p = "r_p (rs ! i)"
  let ?h = "hash_page ?p AND (2 ^ k - 1)"
  let ?t = "dist ?N (home k ?p) i"
  have h: "unat ?h < ?N" by (rule unat_and_pow2_lt)
  have hh: "unat ?h = home k ?p" by (simp add: home_def)
  have t: "?t < ?N" using h i by (simp add: dist_lt hh)
  have at: "dn ?N (unat ?h) ?t = i" using h i by (simp add: dn_dist hh)
  then have "r_p (rs ! dn ?N (unat ?h) ?t) = ?p \<or> \<not> occ rs (dn ?N (unat ?h) ?t)" by simp
  from find_loop_first [OF k h t this] obtain t0 r where
    r: "t0 \<le> ?t" "find_loop rs (2 ^ k - 1) ?p ?h = Some r" "unat r = dn ?N (unat ?h) t0"
       "r_p (rs ! unat r) = ?p \<or> \<not> occ rs (unat r)"
    by blast
  have "t0 = ?t"
  proof (rule ccontr)
    assume "t0 \<noteq> ?t"
    then have lt: "t0 < ?t" using r(1) by simp
    then have o: "occ rs (dn ?N (home k ?p) t0)"
      using ok i oi by (simp add: probe_ok_def)
    then have "r_p (rs ! unat r) = ?p" using r(3,4) by (simp add: hh)
    moreover have "unat r < length rs" using r(3) h len by (simp add: dn_lt)
    ultimately have ri: "unat r = i"
      using dk [unfolded keys_distinct_def, rule_format, of i "unat r"] i len oi by simp
    have t0i: "dn ?N (unat ?h) t0 = i" by (simp only: r(3) [symmetric] ri)
    have t0N: "t0 < ?N" using lt t by (rule less_trans)
    have "dist ?N (unat ?h) (dn ?N (unat ?h) t0) = t0" using h t0N by (rule dist_dn)
    then have "dist ?N (unat ?h) i = t0" by (simp only: t0i)
    then have "t0 = ?t" by (simp only: hh)
    then show False using lt by simp
  qed
  then show ?thesis using r(2,3) at by auto
qed

lemma regions_find_present:
  assumes k: "k < 64" and tot: "regions_total t = 2 ^ k" and len: "length (regions t) = 2 ^ k"
    and ok: "probe_ok k (regions t)" and dk: "keys_distinct (regions t)"
    and i: "i < 2 ^ k" and oi: "occ (regions t) i"
  shows "regions_find t (r_p (regions t ! i)) = Some (Some (of_nat i))"
proof -
  from find_loop_present [OF k len ok dk i oi] obtain r where
    r: "find_loop (regions t) (2 ^ k - 1) (r_p (regions t ! i))
          (hash_page (r_p (regions t ! i)) AND (2 ^ k - 1)) = Some r" "unat r = i"
    by blast
  have "(of_nat i :: 64 word) = of_nat (unat r)" by (simp only: r(2))
  also have "\<dots> = r" by simp
  finally have "r = of_nat i" by (rule sym)
  then show ?thesis using r oi by (simp add: regions_find_def tot occ_def Let_def)
qed

subsection \<open>Counting null slots, the set of keys\<close>

lemma occ_update: "i < length rs \<Longrightarrow> occ (rs[j := e]) i = (if i = j then r_p e \<noteq> 0 else occ rs i)"
  by (simp add: occ_def)

lemma nnull_update:
  assumes "i < length rs"
  shows "nnull (rs[i := e]) + (if r_p (rs ! i) = 0 then 1 else 0) = nnull rs + (if r_p e = 0 then 1 else 0)"
proof -
  have a: "rs[i := e] = take i rs @ e # drop (Suc i) rs"
    using assms by (rule upd_conv_take_nth_drop)
  have b: "nnull rs = nnull (take i rs @ rs ! i # drop (Suc i) rs)"
    using assms by (simp only: id_take_nth_drop [symmetric])
  show ?thesis unfolding b unfolding a by (simp add: nnull_def)
qed

lemma nnull_le: "nnull rs \<le> length rs"
  by (simp add: nnull_def)

lemma nnull_pos: "0 < nnull rs \<Longrightarrow> \<exists>z < length rs. \<not> occ rs z"
proof -
  assume "0 < nnull rs"
  then have "filter (\<lambda>e. r_p e = 0) rs \<noteq> []" by (simp add: nnull_def)
  then obtain x where "x \<in> set rs" "r_p x = 0" by (auto simp: filter_empty_conv)
  then show ?thesis by (auto simp: in_set_conv_nth occ_def)
qed

lemma nnull_replicate: "nnull (replicate n null_region) = n"
  by (simp add: nnull_def null_region_def)

lemma nnull_occ_count: "nnull rs + length (filter (\<lambda>e. r_p e \<noteq> 0) rs) = length rs"
  unfolding nnull_def by (induction rs) auto

lemma keyset_update_null:
  assumes "i < length rs" "r_p (rs ! i) = 0" "r_p e \<noteq> 0"
  shows "keyset (rs[i := e]) = insert (r_p e) (keyset rs)"
proof (rule set_eqI)
  fix x
  show "x \<in> keyset (rs[i := e]) \<longleftrightarrow> x \<in> insert (r_p e) (keyset rs)"
  proof
    assume "x \<in> keyset (rs[i := e])"
    then obtain j where j: "x \<noteq> 0" "j < length rs" "r_p (rs[i := e] ! j) = x"
      by (auto simp: keyset_def)
    show "x \<in> insert (r_p e) (keyset rs)"
    proof (cases "j = i")
      case True then show ?thesis using j by simp
    next
      case False then show ?thesis using j by (auto simp: keyset_def)
    qed
  next
    assume x: "x \<in> insert (r_p e) (keyset rs)"
    show "x \<in> keyset (rs[i := e])"
    proof (cases "x = r_p e")
      case True
      then show ?thesis using assms by (auto simp: keyset_def intro!: exI [of _ i])
    next
      case False
      then obtain j where j: "x \<noteq> 0" "j < length rs" "r_p (rs ! j) = x"
        using x by (auto simp: keyset_def)
      then have "j \<noteq> i" using assms(2) by auto
      then show ?thesis using j by (auto simp: keyset_def intro!: exI [of _ j])
    qed
  qed
qed

subsection \<open>Placing an entry at the first free slot of its probe sequence\<close>

lemma place_ok:
  assumes k: "k < 64" and len: "length rs = 2 ^ k" and ok: "probe_ok k rs" and dk: "keys_distinct rs"
    and nz: "r_p e \<noteq> 0" and fresh: "r_p e \<notin> keyset rs" and z: "z < 2 ^ k" "\<not> occ rs z"
  shows "\<exists>r. probe_null rs (2 ^ k - 1) (hash_page (r_p e) AND (2 ^ k - 1)) = Some r \<and> unat r < 2 ^ k
     \<and> \<not> occ rs (unat r) \<and> probe_ok k (rs[unat r := e]) \<and> keys_distinct (rs[unat r := e])"
proof -
  let ?N = "2 ^ k :: nat"
  let ?h = "hash_page (r_p e) AND (2 ^ k - 1)"
  have h: "unat ?h < ?N" by (rule unat_and_pow2_lt)
  have hh: "unat ?h = home k (r_p e)" by (simp add: home_def)
  have fr: "\<And>i. i < ?N \<Longrightarrow> r_p (rs ! i) \<noteq> r_p e"
    using fresh nz len by (auto simp: keyset_def)
  have t: "dist ?N (unat ?h) z < ?N" using h z(1) by (rule dist_lt)
  have "\<not> occ rs (dn ?N (unat ?h) (dist ?N (unat ?h) z))"
    using h z by (simp add: dn_dist)
  from probe_null_first [OF k h t this] obtain t0 r where
    r: "t0 \<le> dist ?N (unat ?h) z" "probe_null rs (2 ^ k - 1) ?h = Some r" "unat r = dn ?N (unat ?h) t0"
       "\<not> occ rs (unat r)" "\<forall>u < t0. occ rs (dn ?N (unat ?h) u)"
    by blast
  have rN: "unat r < ?N" using r(3) h by (simp add: dn_lt)
  have t0N: "t0 < ?N" using r(1) t by simp
  have r3: "unat r = dn ?N (home k (r_p e)) t0" using r(3) by (simp only: hh)
  have "dist ?N (home k (r_p e)) (dn ?N (home k (r_p e)) t0) = t0"
    using home_lt t0N by (rule dist_dn)
  then have d0: "dist ?N (home k (r_p e)) (unat r) = t0"
    by (simp only: r3 [symmetric])
  let ?rs = "rs[unat r := e]"
  have occ': "\<And>i. i < ?N \<Longrightarrow> occ rs i \<Longrightarrow> occ ?rs i"
    using len nz by (simp add: occ_update)
  have "probe_ok k ?rs"
    unfolding probe_ok_def
  proof (intro allI impI)
    fix i t assume i: "i < ?N" and oi: "occ ?rs i"
      and tl: "t < dist ?N (home k (r_p (?rs ! i))) i"
    show "occ ?rs (dn ?N (home k (r_p (?rs ! i))) t)"
    proof (cases "i = unat r")
      case True
      then have key: "r_p (?rs ! i) = r_p e" using rN len by simp
      have d0': "dist ?N (home k (r_p e)) i = t0" using d0 by (simp only: True)
      have tl': "t < t0" using tl by (simp only: key d0')
      then have "occ rs (dn ?N (unat ?h) t)" using r(5) by simp
      moreover have "dn ?N (unat ?h) t < ?N" using h by (rule dn_lt)
      ultimately have "occ ?rs (dn ?N (unat ?h) t)" by (rule occ' [rotated])
      then show ?thesis by (simp only: key hh)
    next
      case False
      then have key: "?rs ! i = rs ! i" by simp
      have oi': "occ rs i" using oi False i len by (simp add: occ_update)
      have "occ rs (dn ?N (home k (r_p (rs ! i))) t)"
        using ok i oi' tl by (simp add: probe_ok_def key)
      moreover have "dn ?N (home k (r_p (rs ! i))) t < ?N" using home_lt by (rule dn_lt)
      ultimately have "occ ?rs (dn ?N (home k (r_p (rs ! i))) t)" by (rule occ' [rotated])
      then show ?thesis by (simp only: key)
    qed
  qed
  moreover have "keys_distinct ?rs"
    unfolding keys_distinct_def
  proof (intro allI impI)
    fix i j assume i: "i < length ?rs" and j: "j < length ?rs"
      and e: "occ ?rs i \<and> r_p (?rs ! i) = r_p (?rs ! j)"
    have iN: "i < ?N" and jN: "j < ?N" using i j len by simp_all
    show "i = j"
    proof (cases "i = unat r")
      case True
      show ?thesis
      proof (cases "j = unat r")
        case True with \<open>i = unat r\<close> show ?thesis by simp
      next
        case False
        then have "r_p (rs ! j) = r_p e" using e True rN len by simp
        then show ?thesis using fr [OF jN] by simp
      qed
    next
      case False
      show ?thesis
      proof (cases "j = unat r")
        case True
        then have "r_p (rs ! i) = r_p e" using e False rN len by simp
        then show ?thesis using fr [OF iN] by simp
      next
        case jF: False
        have "occ rs i \<and> r_p (rs ! i) = r_p (rs ! j)"
          using e False jF iN len by (simp add: occ_update)
        then show ?thesis using dk iN jN len by (simp add: keys_distinct_def)
      qed
    qed
  qed
  ultimately show ?thesis using r(2,4) rN by blast
qed

lemma dn_add: "a < N \<Longrightarrow> t + u < N \<Longrightarrow> dn N (dn N a t) u = dn N a (t + u)"
  by (auto simp: dn_def)

lemma dn_step: "a < N \<Longrightarrow> d < N \<Longrightarrow> dn N (dn N a d) (Suc 0) = dn N a (Suc d)"
  by (auto simp: dn_def)

lemma dn_full: "a < N \<Longrightarrow> dn N a N = a"
  by (auto simp: dn_def)

lemma dn_neq: "a < N \<Longrightarrow> 0 < t \<Longrightarrow> t < N \<Longrightarrow> dn N a t \<noteq> a"
  by (auto simp: dn_def)

lemma dist_rev: "a < N \<Longrightarrow> b < N \<Longrightarrow> dist N b a = (if dist N a b = 0 then 0 else N - dist N a b)"
  by (auto simp: dist_def)

lemma dist_step: "a < N \<Longrightarrow> z < N \<Longrightarrow> a \<noteq> z \<Longrightarrow> dist N (dn N a (Suc 0)) z < dist N a z"
  by (auto simp: dn_def dist_def)

lemma dist_via:
  "r < N \<Longrightarrow> j < N \<Longrightarrow> m < N \<Longrightarrow> \<not> (0 < dist N j r \<and> dist N j r \<le> m) \<Longrightarrow>
     dist N r (dn N j m) = dist N r j + m"
  by (auto simp: dn_def dist_def split: if_splits)

lemma delete_skip_iff:
  assumes "unat i < N" "unat r < N" "unat j < N" "i \<noteq> j"
  shows "delete_skip i r j \<longleftrightarrow>
    0 < dist N (unat j) (unat r) \<and> dist N (unat j) (unat r) \<le> dist N (unat j) (unat i)"
proof -
  have "unat i \<noteq> unat j" using assms(4) by (simp add: word_unat_eq_iff)
  then show ?thesis
    using assms(1-3)
    unfolding delete_skip_def word_le_nat_alt word_less_nat_alt dist_def
    by auto
qed

lemma probe_ok_ainv: "probe_ok k rs \<Longrightarrow> i < 2 ^ k \<Longrightarrow> length rs = 2 ^ k \<Longrightarrow>
    ainv k (rs[i := (rs ! i)\<lparr>r_p := 0, r_size := 0\<rparr>]) i"
  unfolding probe_ok_def ainv_def
  by (auto simp: occ_def nth_list_update dn_lt home_lt)

lemma ainv_seg_final:
  assumes j: "j < 2 ^ k" and d: "d < 2 ^ k" and nj: "\<not> occ rs j"
    and a: "ainv k rs j" and sg: "seg k rs j d" and ni: "\<not> occ rs (dn (2 ^ k) j (Suc d))"
  shows "probe_ok k rs"
  unfolding probe_ok_def
proof (intro allI impI)
  let ?N = "2 ^ k :: nat"
  fix s t assume s: "s < ?N" and os: "occ rs s" and t: "t < dist ?N (home k (r_p (rs ! s))) s"
  let ?h = "home k (r_p (rs ! s))"
  let ?D = "dist ?N ?h s"
  have h: "?h < ?N" by (rule home_lt)
  have D: "?D < ?N" using h s by (rule dist_lt)
  have path: "\<And>u. u < ?D \<Longrightarrow> occ rs (dn ?N ?h u) \<or> dn ?N ?h u = j"
    using a s os by (simp add: ainv_def)
  show "occ rs (dn ?N ?h t)"
  proof (rule ccontr)
    assume no: "\<not> occ rs (dn ?N ?h t)"
    then have xj: "dn ?N ?h t = j" using path [OF t] by simp
    define e where "e = ?D - t"
    have e: "0 < e" "t + e = ?D" using t by (simp_all add: e_def)
    have below: "\<And>e'. e' \<le> e \<Longrightarrow> dn ?N j e' = dn ?N ?h (t + e')"
    proof -
      fix e' assume "e' \<le> e"
      then have "t + e' < ?N" using e(2) D by simp
      then have "dn ?N (dn ?N ?h t) e' = dn ?N ?h (t + e')" using h by (intro dn_add)
      then show "dn ?N j e' = dn ?N ?h (t + e')" by (simp only: xj)
    qed
    have se: "dn ?N j e = s"
    proof -
      have "dn ?N j e = dn ?N ?h ?D" using below [of e] e(2) by simp
      then show ?thesis using h s by (simp add: dn_dist)
    qed
    have occs: "\<And>e'. 1 \<le> e' \<Longrightarrow> e' \<le> e \<Longrightarrow> occ rs (dn ?N j e')"
    proof -
      fix e' assume e': "1 \<le> e'" "e' \<le> e"
      show "occ rs (dn ?N j e')"
      proof (cases "e' = e")
        case True then show ?thesis using se os by simp
      next
        case False
        then have lt: "t + e' < ?D" using e' e(2) by simp
        have "e' < ?N" using lt D by simp
        then have "dn ?N j e' \<noteq> j" using j e'(1) by (intro dn_neq) simp_all
        then show ?thesis using path [OF lt] below [OF e'(2)] by simp
      qed
    qed
    have "e \<le> d"
    proof (rule ccontr)
      assume "\<not> e \<le> d"
      then have "1 \<le> Suc d" "Suc d \<le> e" by simp_all
      then have "occ rs (dn ?N j (Suc d))" by (rule occs)
      then show False using ni by simp
    qed
    then have sgs: "0 < dist ?N j ?h" "dist ?N j ?h \<le> e"
      using sg e(1) se by (auto simp: seg_def)
    have "dist ?N ?h j = t"
    proof -
      have "t < ?N" using t D by simp
      then have "dist ?N ?h (dn ?N ?h t) = t" using h by (intro dist_dn)
      then show ?thesis by (simp only: xj)
    qed
    then have "dist ?N j ?h = (if t = 0 then 0 else ?N - t)"
      using dist_rev [OF h j] by simp
    then show False using sgs e(2) D by (auto split: if_splits)
  qed
qed

text \<open>The table after moving the entry at \<open>i\<close> into the gap \<open>j\<close> and clearing \<open>i\<close>.\<close>

lemma ainv_move:
  assumes j: "j < 2 ^ k" and m: "m < 2 ^ k" and m0: "0 < m"
    and a: "ainv k rs j" and nj: "\<not> occ rs j"
    and oi: "occ rs (dn (2 ^ k) j m)"
    and ns: "\<not> (0 < dist (2 ^ k) j (home k (r_p (rs ! dn (2 ^ k) j m))) \<and>
                dist (2 ^ k) j (home k (r_p (rs ! dn (2 ^ k) j m))) \<le> m)"
    and len: "length rs' = 2 ^ k"
    and rj: "rs' ! j = rs ! dn (2 ^ k) j m"
    and ri: "r_p (rs' ! dn (2 ^ k) j m) = 0"
    and ro: "\<And>a. a < 2 ^ k \<Longrightarrow> a \<noteq> j \<Longrightarrow> a \<noteq> dn (2 ^ k) j m \<Longrightarrow> rs' ! a = rs ! a"
  shows "ainv k rs' (dn (2 ^ k) j m)"
  unfolding ainv_def
proof (intro allI impI)
  let ?N = "2 ^ k :: nat"
  let ?i = "dn ?N j m"
  let ?r = "home k (r_p (rs ! ?i))"
  fix s t assume s: "s < ?N" and os: "occ rs' s" and t: "t < dist ?N (home k (r_p (rs' ! s))) s"
  let ?x = "dn ?N (home k (r_p (rs' ! s))) t"
  have iN: "?i < ?N" using j by (rule dn_lt)
  have ij: "?i \<noteq> j" using j m0 m by (rule dn_neq)
  have si: "s \<noteq> ?i" using os ri by (auto simp: occ_def)
  have xN: "?x < ?N" using home_lt by (rule dn_lt)
  have keep: "\<And>a. a < ?N \<Longrightarrow> occ rs a \<Longrightarrow> occ rs' a \<or> a = ?i"
  proof -
    fix a assume aa: "a < ?N" "occ rs a"
    show "occ rs' a \<or> a = ?i"
    proof (cases "a = ?i")
      case True then show ?thesis by simp
    next
      case False
      have "a \<noteq> j" using aa(2) nj by auto
      then have "rs' ! a = rs ! a" using aa(1) False by (intro ro)
      then show ?thesis using aa(2) by (simp add: occ_def)
    qed
  qed
  have oj: "occ rs' j" using rj oi by (simp add: occ_def)
  show "occ rs' ?x \<or> ?x = ?i"
  proof (cases "s = j")
    case True
    have key: "r_p (rs' ! s) = r_p (rs ! ?i)" using True rj by simp
    have tl: "t < dist ?N ?r j" using t by (simp only: True rj)
    have rN: "?r < ?N" by (rule home_lt)
    have dv: "dist ?N ?r ?i = dist ?N ?r j + m"
      using rN j m ns by (rule dist_via)
    have tN: "t < ?N" using tl dist_lt [OF rN j] by simp
    have "t < dist ?N ?r ?i" using tl dv by simp
    then have "occ rs (dn ?N ?r t) \<or> dn ?N ?r t = j"
      using a iN oi by (simp add: ainv_def)
    moreover have "dn ?N ?r t \<noteq> j"
    proof
      assume "dn ?N ?r t = j"
      then have "dist ?N ?r (dn ?N ?r t) = dist ?N ?r j" by simp
      then have "t = dist ?N ?r j" using rN tN by (simp add: dist_dn)
      then show False using tl by simp
    qed
    ultimately have "occ rs (dn ?N ?r t)" by simp
    moreover have "dn ?N ?r t < ?N" using rN by (rule dn_lt)
    ultimately have "occ rs' (dn ?N ?r t) \<or> dn ?N ?r t = ?i" by (rule keep [rotated])
    then show ?thesis by (simp only: key)
  next
    case False
    have same: "rs' ! s = rs ! s" using s False si by (rule ro)
    have os': "occ rs s" using os same by (simp add: occ_def)
    have "t < dist ?N (home k (r_p (rs ! s))) s" using t by (simp only: same)
    then have "occ rs (dn ?N (home k (r_p (rs ! s))) t) \<or> dn ?N (home k (r_p (rs ! s))) t = j"
      using a s os' by (simp add: ainv_def)
    then have "occ rs ?x \<or> ?x = j" by (simp only: same)
    then show ?thesis using keep [OF xN] oj by auto
  qed
qed

lemma keys_distinct_move:
  assumes len0: "length rs = N" and j: "j < N" and i: "i < N" and ij: "i \<noteq> j"
    and dk: "keys_distinct rs" and nj: "\<not> occ rs j"
    and len: "length rs' = N"
    and rj: "rs' ! j = rs ! i"
    and ri: "r_p (rs' ! i) = 0"
    and ro: "\<And>a. a < N \<Longrightarrow> a \<noteq> j \<Longrightarrow> a \<noteq> i \<Longrightarrow> rs' ! a = rs ! a"
  shows "keys_distinct rs'" and "keyset rs' = keyset rs"
proof -
  define f where "f a = (if a = j then i else a)" for a
  have fN: "\<And>a. a < N \<Longrightarrow> f a < N" using i by (simp add: f_def)
  have nth: "\<And>a. a < N \<Longrightarrow> a \<noteq> i \<Longrightarrow> rs' ! a = rs ! f a"
    using rj ro by (simp add: f_def)
  have inj: "\<And>a b. a \<noteq> i \<Longrightarrow> b \<noteq> i \<Longrightarrow> f a = f b \<Longrightarrow> a = b"
    by (auto simp: f_def split: if_splits)
  show "keys_distinct rs'"
    unfolding keys_distinct_def
  proof (intro allI impI)
    fix a b assume a: "a < length rs'" and b: "b < length rs'"
      and e: "occ rs' a \<and> r_p (rs' ! a) = r_p (rs' ! b)"
    have aN: "a < N" and bN: "b < N" using a b len by simp_all
    have ai: "a \<noteq> i" using e ri by (auto simp: occ_def)
    have bi: "b \<noteq> i" using e ri by (auto simp: occ_def)
    from e have e1: "r_p (rs' ! a) \<noteq> 0" and e2: "r_p (rs' ! a) = r_p (rs' ! b)"
      unfolding occ_def by blast+
    have "occ rs (f a)" using e1 unfolding nth [OF aN ai] by (simp add: occ_def)
    moreover have "r_p (rs ! f a) = r_p (rs ! f b)"
      using e2 unfolding nth [OF aN ai] nth [OF bN bi] .
    ultimately have "occ rs (f a) \<and> r_p (rs ! f a) = r_p (rs ! f b)" by simp
    then have "f a = f b"
      using dk fN [OF aN] fN [OF bN] len0 by (simp add: keys_distinct_def)
    then show "a = b" using ai bi by (rule inj [rotated 2])
  qed
  show "keyset rs' = keyset rs"
  proof (rule set_eqI)
    fix x
    show "x \<in> keyset rs' \<longleftrightarrow> x \<in> keyset rs"
    proof
      assume "x \<in> keyset rs'"
      then obtain a where a: "x \<noteq> 0" "a < N" "r_p (rs' ! a) = x"
        using len by (auto simp: keyset_def)
      then have "a \<noteq> i" using ri by auto
      then have "r_p (rs ! f a) = x" using nth [OF a(2)] a(3) by simp
      then show "x \<in> keyset rs" using a(1) fN [OF a(2)] len0 by (auto simp: keyset_def)
    next
      assume "x \<in> keyset rs"
      then obtain a where a: "x \<noteq> 0" "a < N" "r_p (rs ! a) = x"
        using len0 by (auto simp: keyset_def)
      then have aj: "a \<noteq> j" using nj by (auto simp: occ_def)
      show "x \<in> keyset rs'"
      proof (cases "a = i")
        case True
        then have "r_p (rs' ! j) = x" using rj a(3) by simp
        then show ?thesis using a(1) j len by (auto simp: keyset_def)
      next
        case False
        then have "r_p (rs' ! a) = x" using ro [OF a(2) aj] a(3) by simp
        then show ?thesis using a(1,2) len by (auto simp: keyset_def)
      qed
    qed
  qed
qed

lemma move_facts:
  assumes len: "length rs = N" and a: "unat j < N" and b: "unat i < N" and ab: "unat i \<noteq> unat j"
  defines "rs' \<equiv> clear_region (rs[unat j := rs ! unat i]) i"
  shows "length rs' = N"
    and "rs' ! unat j = rs ! unat i"
    and "r_p (rs' ! unat i) = 0"
    and "\<And>c. c < N \<Longrightarrow> c \<noteq> unat j \<Longrightarrow> c \<noteq> unat i \<Longrightarrow> rs' ! c = rs ! c"
    and "\<not> occ rs (unat j) \<Longrightarrow> occ rs (unat i) \<Longrightarrow> nnull rs' = nnull rs"
proof -
  show "length rs' = N" using len by (simp add: rs'_def clear_region_def)
  show "rs' ! unat j = rs ! unat i" using len a ab by (simp add: rs'_def clear_region_def)
  show "r_p (rs' ! unat i) = 0" using len b by (simp add: rs'_def clear_region_def)
  show "\<And>c. c < N \<Longrightarrow> c \<noteq> unat j \<Longrightarrow> c \<noteq> unat i \<Longrightarrow> rs' ! c = rs ! c"
    by (simp add: rs'_def clear_region_def)
  assume nj: "\<not> occ rs (unat j)" and oi: "occ rs (unat i)"
  let ?rs1 = "rs[unat j := rs ! unat i]"
  have "nnull ?rs1 + (if r_p (rs ! unat j) = 0 then 1 else 0)
      = nnull rs + (if r_p (rs ! unat i) = 0 then 1 else 0)"
    using a len by (intro nnull_update) simp
  then have n1: "nnull ?rs1 + 1 = nnull rs" using nj oi by (simp add: occ_def)
  have "nnull (?rs1[unat i := (?rs1 ! unat i)\<lparr>r_p := 0, r_size := 0\<rparr>])
         + (if r_p (?rs1 ! unat i) = 0 then 1 else 0)
      = nnull ?rs1 + (if r_p ((?rs1 ! unat i)\<lparr>r_p := 0, r_size := 0\<rparr>) = 0 then 1 else 0)"
    using b len by (intro nnull_update) simp
  moreover have "?rs1 ! unat i = rs ! unat i" using ab by simp
  ultimately have "nnull rs' = nnull ?rs1 + 1"
    using oi by (simp add: rs'_def clear_region_def occ_def)
  then show "nnull rs' = nnull rs" using n1 by simp
qed

lemma delete_loop_ok:
  assumes k: "k < 64"
  shows "length rs = 2 ^ k \<Longrightarrow> unat j < 2 ^ k \<Longrightarrow> d < 2 ^ k \<Longrightarrow> unat i = dn (2 ^ k) (unat j) d \<Longrightarrow>
     \<not> occ rs (unat j) \<Longrightarrow> ainv k rs (unat j) \<Longrightarrow> seg k rs (unat j) d \<Longrightarrow> keys_distinct rs \<Longrightarrow>
     z < 2 ^ k \<Longrightarrow> \<not> occ rs z \<Longrightarrow> z \<noteq> unat j \<Longrightarrow>
     \<exists>rs'. delete_loop rs (2 ^ k - 1) i j = Some rs' \<and> length rs' = 2 ^ k \<and> probe_ok k rs' \<and>
       keys_distinct rs' \<and> nnull rs' = nnull rs \<and> keyset rs' = keyset rs"
proof (induction "dist (2 ^ k) (unat i) z" arbitrary: rs i j d rule: less_induct)
  case less
  let ?N = "2 ^ k :: nat"
  let ?i' = "(i - 1) AND (2 ^ k - 1)"
  note len = less.prems(1) and jN = less.prems(2) and dN = less.prems(3) and id = less.prems(4)
    and nj = less.prems(5) and a = less.prems(6) and sg = less.prems(7) and dk = less.prems(8)
    and zN = less.prems(9) and nz = less.prems(10) and zj = less.prems(11)
  have iN: "unat i < ?N" unfolding id using jN by (rule dn_lt)
  have i'1: "unat ?i' = dn ?N (unat i) (Suc 0)" using k iN by (rule unat_step)
  have i': "unat ?i' = dn ?N (unat j) (Suc d)"
    unfolding i'1 id using jN dN by (rule dn_step)
  have i'N: "unat ?i' < ?N" by (rule unat_and_pow2_lt)
  have iz: "unat i \<noteq> z"
  proof (cases "d = 0")
    case True
    then have "unat i = unat j" using id by (simp add: dn_0)
    then show ?thesis using zj by simp
  next
    case False
    then have "occ rs (dn ?N (unat j) d)" using sg by (simp add: seg_def)
    then have "occ rs (unat i)" by (simp only: id)
    then show ?thesis using nz by auto
  qed
  have "dist ?N (dn ?N (unat i) (Suc 0)) z < dist ?N (unat i) z"
    using iN zN iz by (rule dist_step)
  then have meas: "dist ?N (unat ?i') z < dist ?N (unat i) z" by (simp only: i'1)
  show ?case
  proof (cases "occ rs (unat ?i')")
    case False
    then have "delete_loop rs (2 ^ k - 1) i j = Some rs"
      by (subst delete_loop.simps) (simp add: Let_def occ_def)
    moreover have "\<not> occ rs (dn ?N (unat j) (Suc d))" using False unfolding i' .
    then have "probe_ok k rs" by (rule ainv_seg_final [OF jN dN nj a sg])
    ultimately show ?thesis using len dk by simp
  next
    case True
    have sd: "Suc d < ?N"
    proof (rule ccontr)
      assume "\<not> Suc d < ?N"
      then have "Suc d = ?N" using dN by simp
      then have "dn ?N (unat j) (Suc d) = unat j" using jN by (simp add: dn_full)
      then have "unat ?i' = unat j" using i' by simp
      then show False using True nj by simp
    qed
    have ne: "unat ?i' \<noteq> unat j" unfolding i' using jN sd by (intro dn_neq) simp_all
    then have new: "?i' \<noteq> j" by auto
    let ?r = "hash_page (r_p (rs ! unat ?i')) AND (2 ^ k - 1)"
    have rN: "unat ?r < ?N" by (rule unat_and_pow2_lt)
    have rh: "unat ?r = home k (r_p (rs ! unat ?i'))" by (simp add: home_def)
    have "dist ?N (unat j) (dn ?N (unat j) (Suc d)) = Suc d" using jN sd by (rule dist_dn)
    then have dji: "dist ?N (unat j) (unat ?i') = Suc d" by (simp only: i')
    have skip: "delete_skip ?i' ?r j \<longleftrightarrow>
        0 < dist ?N (unat j) (home k (r_p (rs ! unat ?i'))) \<and>
        dist ?N (unat j) (home k (r_p (rs ! unat ?i'))) \<le> Suc d"
      using delete_skip_iff [OF i'N rN jN new] by (simp only: rh dji)
    show ?thesis
    proof (cases "delete_skip ?i' ?r j")
      case sk: True
      have eq: "delete_loop rs (2 ^ k - 1) i j = delete_loop rs (2 ^ k - 1) ?i' j"
        using True sk by (subst delete_loop.simps) (simp add: Let_def occ_def)
      have sg': "seg k rs (unat j) (Suc d)"
        unfolding seg_def
      proof (intro allI impI)
        fix m assume m: "1 \<le> m \<and> m \<le> Suc d"
        show "occ rs (dn ?N (unat j) m) \<and>
          0 < dist ?N (unat j) (home k (r_p (rs ! dn ?N (unat j) m))) \<and>
          dist ?N (unat j) (home k (r_p (rs ! dn ?N (unat j) m))) \<le> m"
        proof (cases "m = Suc d")
          case True
          have "occ rs (unat ?i') \<and>
            0 < dist ?N (unat j) (home k (r_p (rs ! unat ?i'))) \<and>
            dist ?N (unat j) (home k (r_p (rs ! unat ?i'))) \<le> Suc d"
            using \<open>occ rs (unat ?i')\<close> sk skip by simp
          then show ?thesis unfolding True by (simp only: i')
        next
          case False
          then have "1 \<le> m \<and> m \<le> d" using m by simp
          then show ?thesis using sg by (simp add: seg_def)
        qed
      qed
      from less.hyps [OF meas len jN sd i' nj a sg' dk zN nz zj]
      show ?thesis by (simp only: eq)
    next
      case nsk: False
      define rs' where "rs' = clear_region (rs[unat j := rs ! unat ?i']) ?i'"
      have eq: "delete_loop rs (2 ^ k - 1) i j = delete_loop rs' (2 ^ k - 1) ?i' ?i'"
        using True nsk by (subst delete_loop.simps) (simp add: Let_def occ_def rs'_def)
      note mf = move_facts [OF len jN i'N ne, folded rs'_def]
      have nn: "nnull rs' = nnull rs" using nj True by (rule mf(5))
      have ri0: "r_p (rs' ! dn ?N (unat j) (Suc d)) = 0" using mf(3) by (simp only: i')
      have rj': "rs' ! unat j = rs ! dn ?N (unat j) (Suc d)" using mf(2) by (simp only: i')
      have ro: "\<And>c. c < ?N \<Longrightarrow> c \<noteq> unat j \<Longrightarrow> c \<noteq> dn ?N (unat j) (Suc d) \<Longrightarrow> rs' ! c = rs ! c"
        using mf(4) by (simp only: i')
      have oi: "occ rs (dn ?N (unat j) (Suc d))" using True by (simp only: i')
      have ns: "\<not> (0 < dist ?N (unat j) (home k (r_p (rs ! dn ?N (unat j) (Suc d)))) \<and>
                dist ?N (unat j) (home k (r_p (rs ! dn ?N (unat j) (Suc d)))) \<le> Suc d)"
        using nsk skip unfolding i' by simp
      have "ainv k rs' (dn ?N (unat j) (Suc d))"
        using jN sd _ a nj oi ns mf(1) rj' ri0 ro by (rule ainv_move) simp
      then have a': "ainv k rs' (unat ?i')" by (simp only: i')
      have iN': "dn ?N (unat j) (Suc d) < ?N" using jN by (rule dn_lt)
      have ij': "dn ?N (unat j) (Suc d) \<noteq> unat j" using ne unfolding i' .
      have dk': "keys_distinct rs'" and ks: "keyset rs' = keyset rs"
        using keys_distinct_move [OF len jN iN' ij' dk nj mf(1) rj' ri0 ro] by simp_all
      have ni': "\<not> occ rs' (unat ?i')" using mf(3) by (simp add: occ_def)
      have sg0: "seg k rs' (unat ?i') 0" by (simp add: seg_def)
      have zi: "z \<noteq> unat ?i'" using True nz by auto
      have "rs' ! z = rs ! z" using zN zj zi by (rule mf(4))
      then have nz': "\<not> occ rs' z" using nz by (simp add: occ_def)
      have d0: "unat ?i' = dn ?N (unat ?i') 0" by (simp add: dn_0)
      have zero: "0 < ?N" by simp
      from less.hyps [OF meas mf(1) i'N zero d0 ni' a' sg0 dk' zN nz' zi]
      show ?thesis by (simp only: eq nn ks)
    qed
  qed
qed

lemma keyset_alt: "keyset rs = r_p ` set rs - {0}"
proof (rule set_eqI)
  fix x
  show "x \<in> keyset rs \<longleftrightarrow> x \<in> r_p ` set rs - {0}"
  proof
    assume "x \<in> keyset rs"
    then obtain i where "x \<noteq> 0" "i < length rs" "r_p (rs ! i) = x" by (auto simp: keyset_def)
    moreover from this have "rs ! i \<in> set rs" by simp
    ultimately show "x \<in> r_p ` set rs - {0}" by blast
  next
    assume "x \<in> r_p ` set rs - {0}"
    then obtain e where e: "e \<in> set rs" "r_p e = x" "x \<noteq> 0" by auto
    then obtain i where "i < length rs" "rs ! i = e" by (auto simp: in_set_conv_nth)
    then show "x \<in> keyset rs" using e by (auto simp: keyset_def)
  qed
qed

lemma keyset_Cons: "keyset (e # es) = (if r_p e = 0 then keyset es else insert (r_p e) (keyset es))"
  by (auto simp: keyset_alt)

lemma keys_distinct_Cons:
  assumes "keys_distinct (e # es)"
  shows "keys_distinct es" and "r_p e \<noteq> 0 \<Longrightarrow> r_p e \<notin> keyset es"
proof -
  show "keys_distinct es"
    unfolding keys_distinct_def
  proof (intro allI impI)
    fix i j assume ij: "i < length es" "j < length es"
      and h: "occ es i \<and> r_p (es ! i) = r_p (es ! j)"
    have "Suc i < length (e # es)" "Suc j < length (e # es)" using ij by simp_all
    moreover from h have h1: "occ es i" and h2: "r_p (es ! i) = r_p (es ! j)" by blast+
    have "occ (e # es) (Suc i)" using h1 by (simp add: occ_def)
    moreover have "r_p ((e # es) ! Suc i) = r_p ((e # es) ! Suc j)" using h2 by simp
    ultimately have "Suc i = Suc j" using assms unfolding keys_distinct_def by blast
    then show "i = j" by simp
  qed
  assume nz: "r_p e \<noteq> 0"
  show "r_p e \<notin> keyset es"
  proof
    assume "r_p e \<in> keyset es"
    then obtain j where j: "j < length es" "r_p (es ! j) = r_p e" by (auto simp: keyset_def)
    have "0 < length (e # es)" "Suc j < length (e # es)" using j by simp_all
    moreover have "occ (e # es) 0" using nz by (simp add: occ_def)
    moreover have "r_p ((e # es) ! 0) = r_p ((e # es) ! Suc j)" using j(2) by simp
    ultimately have "0 = Suc j" using assms unfolding keys_distinct_def by blast
    then show False by simp
  qed
qed

lemma rehash_ok:
  assumes k: "k < 64"
  shows "length p = 2 ^ k \<Longrightarrow> probe_ok k p \<Longrightarrow> keys_distinct p \<Longrightarrow> keys_distinct es \<Longrightarrow>
     keyset es \<inter> keyset p = {} \<Longrightarrow> length (filter (\<lambda>e. r_p e \<noteq> 0) es) < nnull p \<Longrightarrow>
     \<exists>p'. rehash es (2 ^ k - 1) p = Some p' \<and> length p' = 2 ^ k \<and> probe_ok k p' \<and> keys_distinct p' \<and>
       nnull p' + length (filter (\<lambda>e. r_p e \<noteq> 0) es) = nnull p \<and> keyset p' = keyset p \<union> keyset es"
proof (induction es arbitrary: p)
  case Nil
  then show ?case by (simp add: keyset_def)
next
  case (Cons e es)
  note len = Cons.prems(1) and ok = Cons.prems(2) and dk = Cons.prems(3) and dke = Cons.prems(4)
    and disj = Cons.prems(5) and cnt = Cons.prems(6)
  note tl = keys_distinct_Cons [OF dke]
  show ?case
  proof (cases "r_p e = 0")
    case True
    have "keyset es \<inter> keyset p = {}" using disj True by (simp add: keyset_Cons)
    moreover have "length (filter (\<lambda>e. r_p e \<noteq> 0) es) < nnull p" using cnt True by simp
    ultimately obtain p' where
      "rehash es (2 ^ k - 1) p = Some p'" "length p' = 2 ^ k" "probe_ok k p'" "keys_distinct p'"
      "nnull p' + length (filter (\<lambda>e. r_p e \<noteq> 0) es) = nnull p" "keyset p' = keyset p \<union> keyset es"
      using Cons.IH [OF len ok dk tl(1)] by blast
    then show ?thesis using True by (simp add: keyset_Cons)
  next
    case False
    have fresh: "r_p e \<notin> keyset p" using disj False by (auto simp: keyset_Cons)
    have "0 < nnull p" using cnt by simp
    then obtain z where z: "z < 2 ^ k" "\<not> occ p z" using nnull_pos [of p] len by auto
    from place_ok [OF k len ok dk False fresh z] obtain r where
      r: "probe_null p (2 ^ k - 1) (hash_page (r_p e) AND (2 ^ k - 1)) = Some r" "unat r < 2 ^ k"
         "\<not> occ p (unat r)" "probe_ok k (p[unat r := e])" "keys_distinct (p[unat r := e])"
      by blast
    let ?p1 = "p[unat r := e]"
    have rl: "unat r < length p" using r(2) len by simp
    have len1: "length ?p1 = 2 ^ k" using len by simp
    have "nnull ?p1 + (if r_p (p ! unat r) = 0 then 1 else 0) = nnull p + (if r_p e = 0 then 1 else 0)"
      using rl by (rule nnull_update)
    then have n1: "nnull ?p1 + 1 = nnull p" using r(3) False by (simp add: occ_def)
    have ks1: "keyset ?p1 = insert (r_p e) (keyset p)"
      using rl r(3) False by (intro keyset_update_null) (simp_all add: occ_def)
    have disj1: "keyset es \<inter> keyset ?p1 = {}"
      using disj tl(2) [OF False] False by (auto simp: ks1 keyset_Cons)
    have cnt1: "length (filter (\<lambda>e. r_p e \<noteq> 0) es) < nnull ?p1" using cnt n1 False by simp
    from Cons.IH [OF len1 r(4) r(5) tl(1) disj1 cnt1] obtain p' where
      p': "rehash es (2 ^ k - 1) ?p1 = Some p'" "length p' = 2 ^ k" "probe_ok k p'" "keys_distinct p'"
      "nnull p' + length (filter (\<lambda>e. r_p e \<noteq> 0) es) = nnull ?p1" "keyset p' = keyset ?p1 \<union> keyset es"
      by blast
    have "rehash (e # es) (2 ^ k - 1) p = Some p'" using False r(1) p'(1) by simp
    moreover have "nnull p' + length (filter (\<lambda>e. r_p e \<noteq> 0) (e # es)) = nnull p"
      using p'(5) n1 False by simp
    moreover have "keyset p' = keyset p \<union> keyset (e # es)"
      using p'(6) False by (auto simp: ks1 keyset_Cons)
    ultimately show ?thesis using p'(2,3,4) by blast
  qed
qed

subsection \<open>The invariant of the region table\<close>

lemma pow2_le_25: "k \<le> 25 \<Longrightarrow> (2::nat) ^ k \<le> 33554432"
proof -
  assume "k \<le> 25"
  then have "(2::nat) ^ k \<le> 2 ^ 25" by (intro power_increasing) simp_all
  then show ?thesis by simp
qed

lemma pow2_ge_8: "8 \<le> k \<Longrightarrow> (256::nat) \<le> 2 ^ k"
proof -
  assume "8 \<le> k"
  then have "(2::nat) ^ 8 \<le> 2 ^ k" by (intro power_increasing) simp_all
  then show ?thesis by simp
qed

lemma regions_grow_ok:
  assumes wf: "table_wf k t"
  shows "if protect_regions_fails e \<or> \<not> k < 25 then regions_grow e t = Inr (1, t)
         else if \<not> k < 20 then regions_grow e t = Inl Overrun
         else \<exists>t'. regions_grow e t = Inr (0, t') \<and>
            table_wf (Suc k) (t'\<lparr>regions_spare := []\<rparr>) \<and>
            regions_spare t' = (if map_fixed_regions_fails e then regions t else []) \<and>
            nnull (regions t') = nnull (regions t) + 2 ^ k \<and>
            keyset (regions t') = keyset (regions t)"
proof -
  let ?N = "2 ^ k :: nat"
  from wf have k: "8 \<le> k" "k \<le> 25" and tot: "regions_total t = 2 ^ k"
    and len: "length (regions t) = ?N" and fr: "unat (regions_free t) = nnull (regions t)"
    and ok: "probe_ok k (regions t)" and dk: "keys_distinct (regions t)"
    and sp: "regions_spare t = []"
    by (simp_all add: table_wf_def)
  have k64: "k < 64" "Suc k < 64" using k by simp_all
  have N: "?N \<le> 33554432" using k(2) by (rule pow2_le_25)
  have utot: "unat (regions_total t) = ?N" using unat_pow2 [OF k64(1)] tot by simp
  have c1: "\<not> regions_total t > (- 1) div 24 div 2"
    using N by (simp add: word_less_nat_alt utot unat_div)
  have nt: "regions_total t * 2 = 2 ^ Suc k" by (simp add: tot)
  have unt: "unat (regions_total t * 2) = 2 * ?N"
    using unat_pow2 [OF k64(2)] by (simp only: nt) simp
  have c2: "regions_total t * 2 > max_region_table_size \<longleftrightarrow> \<not> k < 25"
  proof -
    have m: "unat max_region_table_size = 33554432"
      by (simp add: max_region_table_size_def class_region_size_def PAGE_SIZE_def unat_div)
    have "2 * ?N > 33554432 \<longleftrightarrow> \<not> k < 25"
    proof (cases "k < 25")
      case True
      then have "(2::nat) ^ k \<le> 2 ^ 24" by (intro power_increasing) simp_all
      then show ?thesis using True by simp
    next
      case False
      then have "k = 25" using k(2) by simp
      then show ?thesis by simp
    qed
    then show ?thesis by (simp add: word_less_nat_alt m unt)
  qed
  have c3: "regions_total t * 2 * 24 > regions_buffer_size \<longleftrightarrow> \<not> k < 20"
  proof -
    have m: "unat regions_buffer_size = 33554432"
      by (simp add: regions_buffer_size_def max_region_table_size_def class_region_size_def
          PAGE_SIZE_def unat_div)
    have "unat (regions_total t * 2) * unat (24 :: 64 word) < 2 ^ LENGTH(64)"
      using unt N by simp
    then have "unat (regions_total t * 2 * 24) = unat (regions_total t * 2) * unat (24 :: 64 word)"
      by (simp only: unat_mult_lem)
    then have u: "unat (regions_total t * 2 * 24) = 48 * ?N" using unt by simp
    have a: "33554432 < 48 * ?N \<longleftrightarrow> \<not> k < 20"
    proof (cases "k < 20")
      case True
      then have "(2::nat) ^ k \<le> 2 ^ 19" by (intro power_increasing) simp_all
      then show ?thesis using True by simp
    next
      case False
      then have "(2::nat) ^ 20 \<le> 2 ^ k" by (intro power_increasing) simp_all
      then show ?thesis using False by simp
    qed
    show ?thesis unfolding word_less_nat_alt m u by (rule a)
  qed
  show ?thesis
  proof (cases "protect_regions_fails e \<or> \<not> k < 25")
    case True
    then have "regions_grow e t = Inr (1, t)"
      using c1 c2 by (auto simp: regions_grow_def Let_def)
    then show ?thesis using True by simp
  next
    case False
    show ?thesis
    proof (cases "k < 20")
      case big: False
      then have "regions_grow e t = Inl Overrun"
        using c1 c2 c3 False by (auto simp: regions_grow_def Let_def)
      then show ?thesis using False big by simp
    next
      case True
      let ?p = "replicate (2 ^ Suc k) null_region"
      have lp: "length ?p = 2 ^ Suc k" by simp
      have okp: "probe_ok (Suc k) ?p"
        by (simp add: probe_ok_def occ_def null_region_def)
      have dkp: "keys_distinct ?p"
        by (simp add: keys_distinct_def occ_def null_region_def)
      have ksp: "keyset ?p = {}" by (auto simp: keyset_def null_region_def)
      have cnt: "length (filter (\<lambda>e. r_p e \<noteq> 0) (regions t)) < nnull ?p"
      proof -
        have "length (filter (\<lambda>e. r_p e \<noteq> 0) (regions t)) \<le> ?N"
          using length_filter_le [of _ "regions t"] len by simp
        moreover have "(0::nat) < ?N" by simp
        ultimately have "length (filter (\<lambda>e. r_p e \<noteq> 0) (regions t)) < 2 * ?N" by linarith
        then show ?thesis by (simp add: nnull_replicate)
      qed
      have disj: "keyset (regions t) \<inter> keyset ?p = {}" by (simp only: ksp) simp
      from rehash_ok [OF k64(2) lp okp dkp dk disj cnt] obtain p' where
        p': "rehash (regions t) (2 ^ Suc k - 1) ?p = Some p'" "length p' = 2 ^ Suc k"
          "probe_ok (Suc k) p'" "keys_distinct p'"
          "nnull p' + length (filter (\<lambda>e. r_p e \<noteq> 0) (regions t)) = nnull ?p"
          "keyset p' = keyset ?p \<union> keyset (regions t)"
        by blast
      have tk: "take (unat (regions_total t)) (regions t) = regions t" using utot len by simp
      have tk2: "take (unat (regions_total t * 2))
          (regions_spare t @ replicate (unat (regions_total t * 2)) null_region) = ?p"
        using unt by (simp add: sp)
      let ?t' = "\<lparr>regions = p', regions_total = regions_total t * 2,
                  regions_free = regions_free t + regions_total t,
                  regions_spare = (if map_fixed_regions_fails e then regions t else [])\<rparr>"
      have r': "rehash (regions t) (regions_total t * 2 - 1) ?p = Some p'"
        using p'(1) by (simp only: nt)
      have c1e: "((- 1) div 24 div 2 < regions_total t) = False" using c1 by simp
      have c2e: "(max_region_table_size < regions_total t * 2) = False" using c2 True by simp
      have c3e: "(regions_buffer_size < regions_total t * 2 * 24) = False" using c3 True by simp
      have pfe: "protect_regions_fails e = False" using False by simp
      have g: "regions_grow e t = Inr (0, ?t')"
        by (simp only: regions_grow_def Let_def c1e c2e c3e pfe if_False tk tk2 r' option.case)
      have nn: "nnull p' = nnull (regions t) + ?N"
        using p'(5) nnull_occ_count [of "regions t"] len by (simp add: nnull_replicate)
      have "unat (regions_free t) + unat (regions_total t) < 2 ^ LENGTH(64)"
        using fr nnull_le [of "regions t"] len utot N by simp
      then have "unat (regions_free t + regions_total t) = unat (regions_free t) + unat (regions_total t)"
        by (simp only: unat_add_lem)
      then have uf: "unat (regions_free t + regions_total t) = nnull p'"
        using fr utot nn by simp
      have "table_wf (Suc k) (?t'\<lparr>regions_spare := []\<rparr>)"
        using k True p'(2,3,4) uf nt by (simp add: table_wf_def del: power_Suc)
      then show ?thesis using g False True nn p'(6) ksp by auto
    qed
  qed
qed

lemma table_inv_null:
  assumes "table_wf k t" "2 ^ k \<le> 4 * (nnull (regions t) + 1)"
  shows "\<exists>z < 2 ^ k. \<not> occ (regions t) z"
proof -
  have "8 \<le> k" using assms(1) by (simp add: table_wf_def)
  then have "(256::nat) \<le> 2 ^ k" by (rule pow2_ge_8)
  then have "0 < nnull (regions t)" using assms(2) by simp
  then show ?thesis using nnull_pos [of "regions t"] assms(1) by (simp add: table_wf_def)
qed

lemma regions_find_total:
  assumes wf: "table_wf k t" and z: "z < 2 ^ k" "\<not> occ (regions t) z"
  shows "\<exists>r. regions_find t p = Some r \<and>
     (\<forall>idx. r = Some idx \<longrightarrow> unat idx < 2 ^ k \<and> r_p (regions t ! unat idx) = p \<and> p \<noteq> 0) \<and>
     (r = None \<longrightarrow> p \<notin> keyset (regions t))"
proof -
  let ?N = "2 ^ k :: nat"
  let ?rs = "regions t"
  let ?h = "hash_page p AND (2 ^ k - 1)"
  from wf have k: "k \<le> 25" and tot: "regions_total t = 2 ^ k"
    and len: "length ?rs = ?N" and ok: "probe_ok k ?rs" and dk: "keys_distinct ?rs"
    by (simp_all add: table_wf_def)
  have k64: "k < 64" using k by simp
  have h: "unat ?h < ?N" by (rule unat_and_pow2_lt)
  have t: "dist ?N (unat ?h) z < ?N" using h z(1) by (rule dist_lt)
  have "r_p (?rs ! dn ?N (unat ?h) (dist ?N (unat ?h) z)) = p \<or>
        \<not> occ ?rs (dn ?N (unat ?h) (dist ?N (unat ?h) z))"
    using h z by (simp add: dn_dist)
  from find_loop_first [OF k64 h t this] obtain t0 r where
    r: "find_loop ?rs (2 ^ k - 1) p ?h = Some r" "unat r = dn ?N (unat ?h) t0"
       "r_p (?rs ! unat r) = p \<or> \<not> occ ?rs (unat r)"
    by blast
  have rN: "unat r < ?N" unfolding r(2) using h by (rule dn_lt)
  let ?res = "if r_p (?rs ! unat r) = p \<and> r_p (?rs ! unat r) \<noteq> 0 then Some r else None"
  have f: "regions_find t p = Some ?res"
    using r(1) by (simp add: regions_find_def tot Let_def)
  have "?res = None \<longrightarrow> p \<notin> keyset ?rs"
  proof (intro impI notI)
    assume n: "?res = None" and "p \<in> keyset ?rs"
    then obtain i where i: "p \<noteq> 0" "i < ?N" "r_p (?rs ! i) = p"
      using len by (auto simp: keyset_def)
    then have oi: "occ ?rs i" by (simp add: occ_def)
    from find_loop_present [OF k64 len ok dk i(2) oi] obtain r' where
      "find_loop ?rs (2 ^ k - 1) (r_p (?rs ! i)) (hash_page (r_p (?rs ! i)) AND (2 ^ k - 1)) = Some r'"
      "unat r' = i" by blast
    then have "find_loop ?rs (2 ^ k - 1) p ?h = Some r'" "unat r' = i" by (simp_all only: i(3))
    then have "unat r = i" using r(1) by simp
    then have "r_p (?rs ! unat r) = p" using i(3) by simp
    then show False using n i(1) by simp
  qed
  then show ?thesis using f rN by (auto split: if_splits)
qed

lemma keyset_clear:
  assumes len: "length rs = N" and i: "i < N" and dk: "keys_distinct rs"
  shows "keyset (rs[i := (rs ! i)\<lparr>r_p := 0, r_size := 0\<rparr>]) = keyset rs - {r_p (rs ! i)}"
    and "keys_distinct (rs[i := (rs ! i)\<lparr>r_p := 0, r_size := 0\<rparr>])"
proof -
  let ?rs = "rs[i := (rs ! i)\<lparr>r_p := 0, r_size := 0\<rparr>]"
  have nth: "\<And>a. a < N \<Longrightarrow> r_p (?rs ! a) = (if a = i then 0 else r_p (rs ! a))"
    using len by (simp add: nth_list_update)
  show "keyset ?rs = keyset rs - {r_p (rs ! i)}"
  proof (rule set_eqI)
    fix x
    show "x \<in> keyset ?rs \<longleftrightarrow> x \<in> keyset rs - {r_p (rs ! i)}"
    proof
      assume "x \<in> keyset ?rs"
      then obtain a where a: "x \<noteq> 0" "a < N" "r_p (?rs ! a) = x"
        using len by (auto simp: keyset_def)
      then have ai: "a \<noteq> i" and ra: "r_p (rs ! a) = x" using nth [OF a(2)] by (auto split: if_splits)
      have "x \<noteq> r_p (rs ! i)"
      proof
        assume "x = r_p (rs ! i)"
        then have "occ rs a \<and> r_p (rs ! a) = r_p (rs ! i)" using ra a(1) by (simp add: occ_def)
        then have "a = i" using dk a(2) i len unfolding keys_distinct_def by blast
        then show False using ai by simp
      qed
      then show "x \<in> keyset rs - {r_p (rs ! i)}" using a(1,2) ra len by (auto simp: keyset_def)
    next
      assume x: "x \<in> keyset rs - {r_p (rs ! i)}"
      then obtain a where a: "x \<noteq> 0" "a < N" "r_p (rs ! a) = x"
        using len by (auto simp: keyset_def)
      then have "a \<noteq> i" using x by auto
      then have "r_p (?rs ! a) = x" using nth [OF a(2)] a(3) by simp
      then show "x \<in> keyset ?rs" using a(1,2) len by (auto simp: keyset_def)
    qed
  qed
  show "keys_distinct ?rs"
    unfolding keys_distinct_def
  proof (intro allI impI)
    fix a b assume ab: "a < length ?rs" "b < length ?rs"
      and e: "occ ?rs a \<and> r_p (?rs ! a) = r_p (?rs ! b)"
    have aN: "a < N" and bN: "b < N" using ab len by simp_all
    from e have e1: "r_p (?rs ! a) \<noteq> 0" and e2: "r_p (?rs ! a) = r_p (?rs ! b)"
      unfolding occ_def by blast+
    have ai: "a \<noteq> i" using e1 nth [OF aN] by auto
    have bi: "b \<noteq> i" using e1 e2 nth [OF bN] by auto
    have "occ rs a" using e1 nth [OF aN] ai by (simp add: occ_def)
    moreover have "r_p (rs ! a) = r_p (rs ! b)" using e2 nth [OF aN] nth [OF bN] ai bi by simp
    ultimately show "a = b" using dk aN bN len unfolding keys_distinct_def by blast
  qed
qed

lemma regions_delete_ok:
  assumes wf: "table_wf k t" and i: "unat region < 2 ^ k" and oi: "occ (regions t) (unat region)"
    and z: "z < 2 ^ k" "\<not> occ (regions t) z"
  shows "\<exists>t'. regions_delete t region = Some t' \<and> table_wf k t' \<and>
      nnull (regions t') = nnull (regions t) + 1 \<and>
      keyset (regions t') = keyset (regions t) - {r_p (regions t ! unat region)}"
proof -
  let ?N = "2 ^ k :: nat"
  let ?rs = "regions t"
  from wf have k: "8 \<le> k" "k \<le> 25" and tot: "regions_total t = 2 ^ k"
    and len: "length ?rs = ?N" and fr: "unat (regions_free t) = nnull ?rs"
    and ok: "probe_ok k ?rs" and dk: "keys_distinct ?rs" and sp: "regions_spare t = []"
    by (simp_all add: table_wf_def)
  have k64: "k < 64" using k by simp
  let ?cl = "clear_region ?rs region"
  have rs0: "?cl = ?rs[unat region := (?rs ! unat region)\<lparr>r_p := 0, r_size := 0\<rparr>]"
    by (simp only: clear_region_def)
  have len0: "length ?cl = ?N" using len by (simp add: rs0)
  have n0: "\<not> occ ?cl (unat region)" using i len by (simp add: rs0 occ_def)
  have a0: "ainv k ?cl (unat region)" unfolding rs0 using ok i len by (rule probe_ok_ainv)
  have sg0: "seg k ?cl (unat region) 0" by (simp add: seg_def)
  have ks0: "keyset ?cl = keyset ?rs - {r_p (?rs ! unat region)}" and dk0: "keys_distinct ?cl"
    unfolding rs0 using keyset_clear [OF len i dk] by simp_all
  have zi: "z \<noteq> unat region" using oi z(2) by auto
  then have nz0: "\<not> occ ?cl z" using z(2) by (simp add: rs0 occ_def)
  have "nnull ?cl + (if r_p (?rs ! unat region) = 0 then 1 else 0)
      = nnull ?rs + (if r_p ((?rs ! unat region)\<lparr>r_p := 0, r_size := 0\<rparr>) = 0 then 1 else 0)"
    unfolding rs0 using i len by (intro nnull_update) simp
  then have nn0: "nnull ?cl = nnull ?rs + 1" using oi by (simp add: occ_def)
  have d0: "unat region = dn ?N (unat region) 0" by (simp add: dn_0)
  have zero: "0 < ?N" by simp
  from delete_loop_ok [OF k64 len0 i zero d0 n0 a0 sg0 dk0 z(1) nz0 zi] obtain rs' where
    rs': "delete_loop ?cl (2 ^ k - 1) region region = Some rs'" "length rs' = ?N" "probe_ok k rs'"
       "keys_distinct rs'" "nnull rs' = nnull ?cl" "keyset rs' = keyset ?cl"
    by blast
  let ?t' = "t\<lparr>regions := rs', regions_free := regions_free t + 1\<rparr>"
  have d: "regions_delete t region = Some ?t'"
    using rs'(1) by (simp add: regions_delete_def tot Let_def)
  have "nnull ?rs \<le> ?N" using nnull_le [of ?rs] len by simp
  then have "unat (regions_free t) + unat (1 :: 64 word) < 2 ^ LENGTH(64)"
    using fr pow2_le_25 [OF k(2)] by simp
  then have "unat (regions_free t + 1) = unat (regions_free t) + unat (1 :: 64 word)"
    by (simp only: unat_add_lem)
  then have uf: "unat (regions_free t + 1) = nnull rs'" using fr rs'(5) nn0 by simp
  have "table_wf k ?t'" using k tot rs'(2,3,4) uf sp by (simp add: table_wf_def)
  then show ?thesis using d rs'(5,6) nn0 ks0 by auto
qed

lemma regions_insert_ok:
  assumes inv: "table_inv t" and nz: "p \<noteq> 0" and fresh: "p \<notin> keyset (regions t)"
  shows "(regions_insert e t p sz g = Inl Overrun \<and> regions_free t * 4 < regions_total t \<and>
       \<not> protect_regions_fails e \<and> 2 ^ 20 \<le> unat (regions_total t)) \<or>
    (\<exists>rc t'. regions_insert e t p sz g = Inr (rc, t') \<and>
     table_inv (t'\<lparr>regions_spare := []\<rparr>) \<and>
     regions_spare t' = (if rc = 0 \<and> regions_free t * 4 < regions_total t \<and>
                            map_fixed_regions_fails e then regions t else []) \<and>
     (rc = 0 \<or> rc = 1 \<and> t' = t) \<and>
     (rc = 0 \<longrightarrow> keyset (regions t') = insert p (keyset (regions t))) \<and>
     (rc = 0 \<longrightarrow> (regions_free t * 4 < regions_total t \<longrightarrow> regions_total t' = regions_total t * 2) \<and>
                 (\<not> regions_free t * 4 < regions_total t \<longrightarrow> regions_total t' = regions_total t)) \<and>
     (rc = 1 \<longrightarrow> regions_free t * 4 < regions_total t \<and>
                 (protect_regions_fails e \<or> 2 ^ 25 \<le> unat (regions_total t))) \<and>
     (rc = 0 \<longrightarrow> unat (regions_free t') + 1 = unat (regions_free t) +
        (if regions_free t * 4 < regions_total t then unat (regions_total t) else 0)) \<and>
     (rc = 0 \<and> regions_free t * 4 < regions_total t \<longrightarrow>
        unat (regions_total t) < 2 ^ 20 \<and> \<not> protect_regions_fails e) \<and>
     (rc = 0 \<longrightarrow> (\<exists>i < length (regions t').
        regions t' ! i = \<lparr>r_p = p, r_size = sz, r_guard_size = g\<rparr>)))"
proof -
  from inv obtain k where wf: "table_wf k t" and load: "2 ^ k \<le> 4 * (nnull (regions t) + 1)"
    by (auto simp: table_inv_def)
  from wf have k: "8 \<le> k" "k \<le> 25" and tot: "regions_total t = 2 ^ k"
    and len: "length (regions t) = 2 ^ k" and fr: "unat (regions_free t) = nnull (regions t)"
    and sp: "regions_spare t = []"
    by (simp_all add: table_wf_def)
  have same: "t\<lparr>regions_spare := []\<rparr> = t" using sp by simp
  have inv': "table_inv (t\<lparr>regions_spare := []\<rparr>)" using inv by (simp only: same)
  have k64: "k < 64" using k by simp
  have N: "(2::nat) ^ k \<le> 33554432" using k(2) by (rule pow2_le_25)
  have utot: "unat (regions_total t) = 2 ^ k" using unat_pow2 [OF k64] tot by simp
  have big: "\<not> k < 20 \<Longrightarrow> 2 ^ 20 \<le> unat (regions_total t)"
  proof -
    assume "\<not> k < 20"
    then have "(2::nat) ^ 20 \<le> 2 ^ k" by (intro power_increasing) simp_all
    then show ?thesis by (simp only: utot)
  qed
  have small: "k < 20 \<Longrightarrow> unat (regions_total t) < 2 ^ 20"
  proof -
    assume "k < 20"
    then have "(2::nat) ^ k < 2 ^ 20" by (intro power_strict_increasing) simp_all
    then show ?thesis by (simp only: utot)
  qed
  have top: "\<not> k < 25 \<Longrightarrow> 2 ^ 25 \<le> unat (regions_total t)"
  proof -
    assume "\<not> k < 25"
    then have "(2::nat) ^ 25 \<le> 2 ^ k" by (intro power_increasing) simp_all
    then show ?thesis by (simp only: utot)
  qed
  have "unat (regions_free t) * unat (4 :: 64 word) < 2 ^ LENGTH(64)"
    using fr nnull_le [of "regions t"] len N by simp
  then have "unat (regions_free t * 4) = unat (regions_free t) * unat (4 :: 64 word)"
    by (simp only: unat_mult_lem)
  then have uf4: "unat (regions_free t * 4) = 4 * nnull (regions t)" using fr by simp
  have cond: "regions_free t * 4 < regions_total t \<longleftrightarrow> 4 * nnull (regions t) < 2 ^ k"
    by (simp add: word_less_nat_alt uf4 utot)
  text \<open>the table the probe runs on: grown or not\<close>
  let ?G = "if regions_free t * 4 < regions_total t then regions_grow e t else Inr (0, t)"
  have "(\<exists>k1 t1. ?G = Inr (0 :: int, t1)
           \<and> table_wf k1 (t1\<lparr>regions_spare := []\<rparr>)
           \<and> regions_spare t1 = (if regions_free t * 4 < regions_total t \<and>
                  map_fixed_regions_fails e then regions t else [])
           \<and> 2 ^ k1 \<le> 4 * nnull (regions t1) \<and> keyset (regions t1) = keyset (regions t)
           \<and> regions_total t1 = (if regions_free t * 4 < regions_total t then regions_total t * 2 else regions_total t)
           \<and> unat (regions_free t1) = unat (regions_free t) +
                (if regions_free t * 4 < regions_total t then unat (regions_total t) else 0)
           \<and> (regions_free t * 4 < regions_total t \<longrightarrow>
                unat (regions_total t) < 2 ^ 20 \<and> \<not> protect_regions_fails e))
      \<or> (?G = Inr (1 :: int, t) \<and> regions_free t * 4 < regions_total t
           \<and> (\<not> protect_regions_fails e \<longrightarrow> 2 ^ 25 \<le> unat (regions_total t)))
      \<or> (?G = Inl Overrun \<and> regions_free t * 4 < regions_total t \<and> \<not> protect_regions_fails e
           \<and> 2 ^ 20 \<le> unat (regions_total t))"
  proof (cases "regions_free t * 4 < regions_total t")
    case False
    then have "2 ^ k \<le> 4 * nnull (regions t)" using cond by simp
    moreover have "table_wf k (t\<lparr>regions_spare := []\<rparr>)" using wf by (simp only: same)
    ultimately show ?thesis using False sp by auto
  next
    case True
    note g = regions_grow_ok [OF wf, of e]
    show ?thesis
    proof (cases "protect_regions_fails e \<or> \<not> k < 25")
      case f: True
      then have "regions_grow e t = Inr (1, t)" using g by simp
      then show ?thesis using True f top by auto
    next
      case nf: False
      show ?thesis
      proof (cases "k < 20")
        case False
        then have "regions_grow e t = Inl Overrun" using g nf by simp
        then show ?thesis using True nf big [OF False] by auto
      next
        case lt: True
        from g nf lt obtain t' where g': "regions_grow e t = Inr (0, t')"
          "table_wf (Suc k) (t'\<lparr>regions_spare := []\<rparr>)"
          "regions_spare t' = (if map_fixed_regions_fails e then regions t else [])"
          "nnull (regions t') = nnull (regions t) + 2 ^ k"
          "keyset (regions t') = keyset (regions t)" by auto
        note wf' = g'(2)
        have "(2::nat) ^ Suc k \<le> 4 * nnull (regions t')" using g'(4) by simp
        moreover have "regions_total t' = regions_total t * 2"
          using wf' tot by (simp add: table_wf_def)
        moreover have "unat (regions_free t') = unat (regions_free t) + unat (regions_total t)"
          using wf' g'(4) fr utot by (simp add: table_wf_def)
        ultimately show ?thesis using g'(1,3,5) wf' True small [OF lt] nf by auto
      qed
    qed
  qed
  then show ?thesis
  proof (elim disjE exE conjE)
    fix k1 t1
    assume g: "?G = Inr (0 :: int, t1)"
      and wf1: "table_wf k1 (t1\<lparr>regions_spare := []\<rparr>)"
      and sp1': "regions_spare t1 = (if regions_free t * 4 < regions_total t \<and>
                  map_fixed_regions_fails e then regions t else [])"
      and load1: "2 ^ k1 \<le> 4 * nnull (regions t1)"
      and ks1: "keyset (regions t1) = keyset (regions t)"
      and tot1': "regions_total t1 = (if regions_free t * 4 < regions_total t then regions_total t * 2 else regions_total t)"
      and fr1': "unat (regions_free t1) = unat (regions_free t) +
                (if regions_free t * 4 < regions_total t then unat (regions_total t) else 0)"
      and sm: "regions_free t * 4 < regions_total t \<longrightarrow>
                unat (regions_total t) < 2 ^ 20 \<and> \<not> protect_regions_fails e"
    from wf1 have k1: "8 \<le> k1" "k1 \<le> 25" and tot1: "regions_total t1 = 2 ^ k1"
      and len1: "length (regions t1) = 2 ^ k1" and fr1: "unat (regions_free t1) = nnull (regions t1)"
      and ok1: "probe_ok k1 (regions t1)" and dk1: "keys_distinct (regions t1)"
      by (simp_all add: table_wf_def)
    have k164: "k1 < 64" using k1 by simp
    have "(256::nat) \<le> 2 ^ k1" using k1(1) by (rule pow2_ge_8)
    then have pos: "0 < nnull (regions t1)" using load1 by simp
    then obtain z where z: "z < 2 ^ k1" "\<not> occ (regions t1) z"
      using nnull_pos [of "regions t1"] len1 by auto
    let ?e = "\<lparr>r_p = p, r_size = sz, r_guard_size = g\<rparr>"
    have nz': "r_p ?e \<noteq> 0" using nz by simp
    have fresh': "r_p ?e \<notin> keyset (regions t1)" using fresh ks1 by simp
    from place_ok [OF k164 len1 ok1 dk1 nz' fresh' z] obtain r where
      r: "probe_null (regions t1) (2 ^ k1 - 1) (hash_page p AND (2 ^ k1 - 1)) = Some r" "unat r < 2 ^ k1"
         "\<not> occ (regions t1) (unat r)" "probe_ok k1 ((regions t1)[unat r := ?e])"
         "keys_distinct ((regions t1)[unat r := ?e])"
      by auto
    let ?rs' = "(regions t1)[unat r := ?e]"
    let ?t' = "t1\<lparr>regions := ?rs', regions_free := regions_free t1 - 1\<rparr>"
    have ins: "regions_insert e t p sz g = Inr (0, ?t')"
      using g r(1) by (simp add: regions_insert_def tot1 Let_def)
    have rl: "unat r < length (regions t1)" using r(2) len1 by simp
    have ent: "\<exists>i < length (regions ?t'). regions ?t' ! i = ?e"
      using rl by (intro exI [of _ "unat r"]) simp
    have "nnull ?rs' + (if r_p (regions t1 ! unat r) = 0 then 1 else 0)
        = nnull (regions t1) + (if r_p ?e = 0 then 1 else 0)"
      using rl by (rule nnull_update)
    then have nn: "nnull ?rs' + 1 = nnull (regions t1)" using r(3) nz by (simp add: occ_def)
    have "regions_free t1 \<noteq> 0" using fr1 pos by (auto simp: unat_eq_zero)
    then have "unat (regions_free t1 - 1) = unat (regions_free t1) - 1" by (rule unat_minus_one)
    then have uf: "unat (regions_free t1 - 1) = nnull ?rs'" using fr1 nn by simp
    have "table_wf k1 (?t'\<lparr>regions_spare := []\<rparr>)"
      using k1 tot1 len1 r(4,5) uf by (simp add: table_wf_def)
    moreover have "2 ^ k1 \<le> 4 * (nnull (regions (?t'\<lparr>regions_spare := []\<rparr>)) + 1)"
      using load1 nn by simp
    ultimately have "table_inv (?t'\<lparr>regions_spare := []\<rparr>)" unfolding table_inv_def by blast
    moreover have "regions_spare ?t' = (if regions_free t * 4 < regions_total t \<and>
                  map_fixed_regions_fails e then regions t else [])" using sp1' by simp
    moreover have "keyset (regions ?t') = insert p (keyset (regions t))"
      using keyset_update_null [OF rl, of ?e] r(3) nz ks1 by (simp add: occ_def)
    moreover have "regions_total ?t' = regions_total t1" by simp
    moreover have "unat (regions_free ?t') + 1 = unat (regions_free t) +
        (if regions_free t * 4 < regions_total t then unat (regions_total t) else 0)"
      using uf nn fr1 fr1' by simp
    ultimately have "\<exists>rc t'. regions_insert e t p sz g = Inr (rc, t') \<and>
     table_inv (t'\<lparr>regions_spare := []\<rparr>) \<and>
     regions_spare t' = (if rc = 0 \<and> regions_free t * 4 < regions_total t \<and>
                            map_fixed_regions_fails e then regions t else []) \<and>
     (rc = 0 \<or> rc = 1 \<and> t' = t) \<and>
     (rc = 0 \<longrightarrow> keyset (regions t') = insert p (keyset (regions t))) \<and>
     (rc = 0 \<longrightarrow> (regions_free t * 4 < regions_total t \<longrightarrow> regions_total t' = regions_total t * 2) \<and>
                 (\<not> regions_free t * 4 < regions_total t \<longrightarrow> regions_total t' = regions_total t)) \<and>
     (rc = 1 \<longrightarrow> regions_free t * 4 < regions_total t \<and>
                 (protect_regions_fails e \<or> 2 ^ 25 \<le> unat (regions_total t))) \<and>
     (rc = 0 \<longrightarrow> unat (regions_free t') + 1 = unat (regions_free t) +
        (if regions_free t * 4 < regions_total t then unat (regions_total t) else 0)) \<and>
     (rc = 0 \<and> regions_free t * 4 < regions_total t \<longrightarrow>
        unat (regions_total t) < 2 ^ 20 \<and> \<not> protect_regions_fails e) \<and>
     (rc = 0 \<longrightarrow> (\<exists>i < length (regions t').
        regions t' ! i = \<lparr>r_p = p, r_size = sz, r_guard_size = g\<rparr>))"
      using ins tot1' sm ent by (intro exI [of _ 0] exI [of _ ?t']) simp
    then show ?thesis by (rule disjI2)
  next
    assume "?G = Inr (1 :: int, t)"
      and c: "regions_free t * 4 < regions_total t"
      and w: "\<not> protect_regions_fails e \<longrightarrow> 2 ^ 25 \<le> unat (regions_total t)"
    then have "regions_insert e t p sz g = Inr (1, t)" by (simp add: regions_insert_def)
    then have "\<exists>rc t'. regions_insert e t p sz g = Inr (rc, t') \<and>
     table_inv (t'\<lparr>regions_spare := []\<rparr>) \<and>
     regions_spare t' = (if rc = 0 \<and> regions_free t * 4 < regions_total t \<and>
                            map_fixed_regions_fails e then regions t else []) \<and>
     (rc = 0 \<or> rc = 1 \<and> t' = t) \<and>
     (rc = 0 \<longrightarrow> keyset (regions t') = insert p (keyset (regions t))) \<and>
     (rc = 0 \<longrightarrow> (regions_free t * 4 < regions_total t \<longrightarrow> regions_total t' = regions_total t * 2) \<and>
                 (\<not> regions_free t * 4 < regions_total t \<longrightarrow> regions_total t' = regions_total t)) \<and>
     (rc = 1 \<longrightarrow> regions_free t * 4 < regions_total t \<and>
                 (protect_regions_fails e \<or> 2 ^ 25 \<le> unat (regions_total t))) \<and>
     (rc = 0 \<longrightarrow> unat (regions_free t') + 1 = unat (regions_free t) +
        (if regions_free t * 4 < regions_total t then unat (regions_total t) else 0)) \<and>
     (rc = 0 \<and> regions_free t * 4 < regions_total t \<longrightarrow>
        unat (regions_total t) < 2 ^ 20 \<and> \<not> protect_regions_fails e) \<and>
     (rc = 0 \<longrightarrow> (\<exists>i < length (regions t').
        regions t' ! i = \<lparr>r_p = p, r_size = sz, r_guard_size = g\<rparr>))"
      using inv' c w sp by (intro exI [of _ 1] exI [of _ t]) auto
    then show ?thesis by (rule disjI2)
  next
    assume "?G = Inl Overrun" and c: "regions_free t * 4 < regions_total t"
      and w: "\<not> protect_regions_fails e" "2 ^ 20 \<le> unat (regions_total t)"
    then have "regions_insert e t p sz g = Inl Overrun" by (simp add: regions_insert_def)
    then show ?thesis using c w by simp
  qed
qed

lemma regions_insert_good:
  assumes inv: "table_inv t" and nz: "p \<noteq> 0" and fresh: "p \<notin> keyset (regions t)"
    and mf: "\<not> map_fixed_regions_fails e"
  shows "(regions_insert e t p sz g = Inl Overrun \<and> regions_free t * 4 < regions_total t \<and>
       \<not> protect_regions_fails e \<and> 2 ^ 20 \<le> unat (regions_total t)) \<or>
    (\<exists>rc t'. regions_insert e t p sz g = Inr (rc, t') \<and> table_inv t' \<and>
     (rc = 0 \<or> rc = 1 \<and> t' = t) \<and>
     (rc = 0 \<longrightarrow> keyset (regions t') = insert p (keyset (regions t))) \<and>
     (rc = 0 \<longrightarrow> (regions_free t * 4 < regions_total t \<longrightarrow> regions_total t' = regions_total t * 2) \<and>
                 (\<not> regions_free t * 4 < regions_total t \<longrightarrow> regions_total t' = regions_total t)) \<and>
     (rc = 1 \<longrightarrow> regions_free t * 4 < regions_total t \<and>
                 (protect_regions_fails e \<or> 2 ^ 25 \<le> unat (regions_total t))) \<and>
     (rc = 0 \<longrightarrow> unat (regions_free t') + 1 = unat (regions_free t) +
        (if regions_free t * 4 < regions_total t then unat (regions_total t) else 0)) \<and>
     (rc = 0 \<and> regions_free t * 4 < regions_total t \<longrightarrow>
        unat (regions_total t) < 2 ^ 20 \<and> \<not> protect_regions_fails e))"
proof -
  note ok = regions_insert_ok [OF inv nz fresh, of e sz g]
  show ?thesis
  proof (cases "regions_insert e t p sz g")
    case (Inl f)
    then show ?thesis using ok by simp
  next
    case (Inr x)
    obtain rc t' where x: "x = (rc, t')" by (cases x)
    have "regions_spare t' = []" using ok Inr x mf by simp
    then have "t'\<lparr>regions_spare := []\<rparr> = t'" by simp
    moreover have "table_inv (t'\<lparr>regions_spare := []\<rparr>)" using ok Inr x by simp
    ultimately have "table_inv t'" by simp
    then show ?thesis using ok Inr x by simp
  qed
qed

lemma keyset_image: "keyset rs = r_p ` set rs - {0}"
  by (rule keyset_alt)

lemma regions_init_inv: "table_inv regions_init"
proof -
  have n: "nnull (regions regions_init) = 256"
    by (simp add: regions_init_def initial_region_table_size_def nnull_replicate)
  have "probe_ok 8 (regions regions_init)" "keys_distinct (regions regions_init)"
    by (simp_all add: regions_init_def initial_region_table_size_def
        probe_ok_def keys_distinct_def occ_def null_region_def)
  moreover have "regions_total regions_init = 2 ^ 8" "length (regions regions_init) = 2 ^ 8"
     "unat (regions_free regions_init) = 256" "regions_spare regions_init = []"
    by (simp_all add: regions_init_def initial_region_table_size_def)
  ultimately have "table_wf 8 regions_init"
    unfolding table_wf_def using n by simp
  then show ?thesis unfolding table_inv_def using n by (intro exI [of _ 8]) simp
qed


lemma table_inv_count: "table_inv t \<Longrightarrow> occupied t + unat (regions_free t) = unat (regions_total t)"
proof -
  assume "table_inv t"
  then obtain k where wf: "table_wf k t" by (auto simp: table_inv_def)
  have "k < 64" using wf by (simp add: table_wf_def)
  then have "unat (regions_total t) = 2 ^ k" using unat_pow2 [of k] wf by (simp add: table_wf_def)
  then show ?thesis using wf nnull_occ_count [of "regions t"] by (simp add: table_wf_def occupied_def)
qed

lemma region_step_inv:
  assumes inv: "table_inv t" and fr: "fresh_inserts t (x # xs)"
    and mf: "\<not> map_fixed_regions_fails (fst x)"
  shows "region_step t x \<noteq> Inl Hang \<and>
    (\<forall>t'. region_step t x = Inr t' \<longrightarrow> table_inv t' \<and> fresh_inserts t' xs \<and>
       keyset (regions t') = live_keys t [x] (keyset (regions t)))"
proof (cases x)
  case (Pair e op)
  from inv obtain k where wf: "table_wf k t" and load: "2 ^ k \<le> 4 * (nnull (regions t) + 1)"
    by (auto simp: table_inv_def)
  show ?thesis
  proof (cases op)
    case (Insert p sz g)
    have nz: "p \<noteq> 0" and fresh: "p \<notin> keyset (regions t)"
      using fr Pair Insert by (auto simp: keyset_image)
    have mf': "\<not> map_fixed_regions_fails e" using mf Pair by simp
    have "regions_insert e t p sz g = Inl Overrun \<or>
      (\<exists>rc t'. regions_insert e t p sz g = Inr (rc, t') \<and> table_inv t' \<and>
         (rc = 0 \<or> rc = 1 \<and> t' = t) \<and>
         (rc = 0 \<longrightarrow> keyset (regions t') = insert p (keyset (regions t))))"
      using regions_insert_good [OF inv nz fresh mf', of sz g] by blast
    then show ?thesis
    proof
      assume "regions_insert e t p sz g = Inl Overrun"
      then show ?thesis using Pair Insert by simp
    next
      assume "\<exists>rc t'. regions_insert e t p sz g = Inr (rc, t') \<and> table_inv t' \<and>
         (rc = 0 \<or> rc = 1 \<and> t' = t) \<and>
         (rc = 0 \<longrightarrow> keyset (regions t') = insert p (keyset (regions t)))"
      then obtain rc t' where
        r: "regions_insert e t p sz g = Inr (rc, t')" "table_inv t'" "rc = 0 \<or> rc = 1 \<and> t' = t"
           "rc = 0 \<longrightarrow> keyset (regions t') = insert p (keyset (regions t))"
        by blast
      have "fresh_inserts t' xs" using fr Pair Insert r(1) by simp
      moreover have "keyset (regions t') = live_keys t [x] (keyset (regions t))"
        using r(1,3,4) Pair Insert by auto
      ultimately show ?thesis using r(1,2) Pair Insert by simp
    qed
  next
    case (Delete p)
    from table_inv_null [OF wf load] obtain z where z: "z < 2 ^ k" "\<not> occ (regions t) z" by blast
    from regions_find_total [OF wf z, of p] obtain r where
      r: "regions_find t p = Some r"
         "\<forall>idx. r = Some idx \<longrightarrow> unat idx < 2 ^ k \<and> r_p (regions t ! unat idx) = p \<and> p \<noteq> 0"
      by blast
    show ?thesis
    proof (cases r)
      case None
      then show ?thesis using r(1) Pair Delete by simp
    next
      case (Some idx)
      then have i: "unat idx < 2 ^ k" and key: "r_p (regions t ! unat idx) = p" and nz: "p \<noteq> 0"
        using r(2) by simp_all
      have oi: "occ (regions t) (unat idx)" using key nz by (simp add: occ_def)
      from regions_delete_ok [OF wf i oi z] obtain t' where
        t': "regions_delete t idx = Some t'" "table_wf k t'"
            "nnull (regions t') = nnull (regions t) + 1"
            "keyset (regions t') = keyset (regions t) - {r_p (regions t ! unat idx)}"
        by blast
      have st: "region_step t x = Inr t'" using r(1) Some t'(1) Pair Delete by simp
      have "table_inv t'" unfolding table_inv_def using t'(2,3) load by (intro exI [of _ k]) simp
      moreover have "fresh_inserts t' xs" using fr st Pair Delete by simp
      moreover have "keyset (regions t') = live_keys t [x] (keyset (regions t))"
        using st t'(4) key Pair Delete by simp
      ultimately show ?thesis using st by simp
    qed
  qed
qed

lemma live_keys_Cons:
  "region_step t x = Inr t' \<Longrightarrow> live_keys t (x # xs) S = live_keys t' xs (live_keys t [x] S)"
proof (cases x)
  case (Pair e op)
  assume "region_step t x = Inr t'"
  then show ?thesis using Pair by (cases op) (auto split: option.splits sum.splits)
qed

lemma run_region_ops_inv:
  "table_inv t \<Longrightarrow> fresh_inserts t ops \<Longrightarrow> old_tables_dropped ops \<Longrightarrow>
    run_region_ops t ops \<noteq> Inl Hang \<and>
    (\<forall>t'. run_region_ops t ops = Inr t' \<longrightarrow> table_inv t' \<and>
       keyset (regions t') = live_keys t ops (keyset (regions t)))"
proof (induction ops arbitrary: t)
  case Nil
  then show ?case by simp
next
  case (Cons x xs)
  have mf: "\<not> map_fixed_regions_fails (fst x)" and dr: "old_tables_dropped xs"
    using Cons.prems(3) by (simp_all add: old_tables_dropped_def)
  note st = region_step_inv [OF Cons.prems(1,2) mf]
  show ?case
  proof (cases "region_step t x")
    case (Inl f)
    then show ?thesis using st by simp
  next
    case (Inr t1)
    then have 1: "table_inv t1" "fresh_inserts t1 xs"
      "keyset (regions t1) = live_keys t [x] (keyset (regions t))" using st by simp_all
    have lk: "live_keys t (x # xs) (keyset (regions t)) = live_keys t1 xs (keyset (regions t1))"
      unfolding 1(3) using Inr by (rule live_keys_Cons)
    from Cons.IH [OF 1(1,2) dr] show ?thesis using Inr by (simp add: lk)
  qed
qed

lemma free4_cond:
  assumes "table_inv t"
  shows "regions_free t * 4 < regions_total t \<longleftrightarrow> 4 * unat (regions_free t) < unat (regions_total t)"
proof -
  from assms obtain k where wf: "table_wf k t" by (auto simp: table_inv_def)
  then have k: "k \<le> 25" and len: "length (regions t) = 2 ^ k"
    and fr: "unat (regions_free t) = nnull (regions t)" by (simp_all add: table_wf_def)
  have "unat (regions_free t) * unat (4 :: 64 word) < 2 ^ LENGTH(64)"
    using fr nnull_le [of "regions t"] len pow2_le_25 [OF k] by simp
  then have "unat (regions_free t * 4) = unat (regions_free t) * unat (4 :: 64 word)"
    by (simp only: unat_mult_lem)
  then show ?thesis by (simp add: word_less_nat_alt mult.commute)
qed


subsection \<open>Inserts in a row: when the table grows\<close>

lemma table_inv_total:
  assumes "table_inv t"
  shows "\<exists>k. 8 \<le> k \<and> k \<le> 25 \<and> unat (regions_total t) = 2 ^ k"
proof -
  from assms obtain k where wf: "table_wf k t" by (auto simp: table_inv_def)
  then have k: "8 \<le> k" "k \<le> 25" "regions_total t = 2 ^ k" by (simp_all add: table_wf_def)
  have "k < 64" using k(2) by simp
  then have "unat (regions_total t) = 2 ^ k" using unat_pow2 [of k] k(3) by simp
  then show ?thesis using k(1,2) by blast
qed

lemma insert_counters:
  assumes inv: "table_inv t" and nz: "p \<noteq> 0" and fresh: "p \<notin> keyset (regions t)"
    and mf: "\<not> map_fixed_regions_fails e" and pf: "\<not> protect_regions_fails e"
    and J: "grow_phase (unat (regions_total t)) (occupied t)" and n: "occupied t \<le> 786432"
  shows "\<exists>t'. regions_insert e t p sz g = Inr (0, t') \<and> table_inv t' \<and>
    keyset (regions t') = insert p (keyset (regions t)) \<and> occupied t' = occupied t + 1 \<and>
    grow_phase (unat (regions_total t')) (occupied t')"
proof -
  define T N F where "T = unat (regions_total t)" and "N = occupied t" and "F = unat (regions_free t)"
  have cnt: "N + F = T" using table_inv_count [OF inv] by (simp add: T_def N_def F_def)
  have c4: "regions_free t * 4 < regions_total t \<longleftrightarrow> 4 * F < T"
    using free4_cond [OF inv] by (simp add: T_def F_def)
  from table_inv_total [OF inv] obtain k where k: "8 \<le> k" "k \<le> 25" "T = 2 ^ k"
    by (auto simp: T_def)
  have "k = 2 + (k - 2)" using k(1) by simp
  then have "(2::nat) ^ k = 2 ^ (2 + (k - 2))" by simp
  then have "(2::nat) ^ k = 2 ^ 2 * 2 ^ (k - 2)" by (simp only: power_add)
  then obtain Q where Q: "T = 4 * Q" using k(3) by simp
  have T25: "T \<le> 33554432" using pow2_le_25 [OF k(2)] k(3) by simp
  have T256: "256 \<le> T" using pow2_ge_8 [OF k(1)] k(3) by simp
  have Jn: "4 * N \<le> 3 * T + 4" "T = 256 \<or> 3 * T + 16 \<le> 8 * N"
    using J by (simp_all add: grow_phase_def T_def N_def)
  have N: "N \<le> 786432" using n by (simp add: N_def)
  have small: "4 * F < T \<Longrightarrow> T < 2 ^ 20"
  proof -
    assume "4 * F < T"
    then have "3 * T < 4 * N" using cnt by arith
    then show ?thesis using N by simp
  qed
  note ok = regions_insert_good [OF inv nz fresh mf, of sz g]
  have no: "regions_insert e t p sz g \<noteq> Inl Overrun"
  proof
    assume "regions_insert e t p sz g = Inl Overrun"
    then have "regions_free t * 4 < regions_total t" "2 ^ 20 \<le> T" using ok by (simp_all add: T_def)
    then show False using small c4 by simp
  qed
  from ok no obtain rc t' where r: "regions_insert e t p sz g = Inr (rc, t')" "table_inv t'"
    "rc = 0 \<or> rc = 1 \<and> t' = t"
    "rc = 0 \<longrightarrow> keyset (regions t') = insert p (keyset (regions t))"
    "rc = 0 \<longrightarrow> (regions_free t * 4 < regions_total t \<longrightarrow> regions_total t' = regions_total t * 2) \<and>
                 (\<not> regions_free t * 4 < regions_total t \<longrightarrow> regions_total t' = regions_total t)"
    "rc = 1 \<longrightarrow> regions_free t * 4 < regions_total t \<and>
                 (protect_regions_fails e \<or> 2 ^ 25 \<le> unat (regions_total t))"
    "rc = 0 \<longrightarrow> unat (regions_free t') + 1 = unat (regions_free t) +
        (if regions_free t * 4 < regions_total t then unat (regions_total t) else 0)"
    by blast
  have rc: "rc = 0"
  proof (rule ccontr)
    assume "rc \<noteq> 0"
    then have "rc = 1" using r(3) by simp
    then have "regions_free t * 4 < regions_total t" "2 ^ 25 \<le> T" using r(6) pf by (simp_all add: T_def)
    then show False using small c4 by simp
  qed
  define T' F' where "T' = unat (regions_total t')" and "F' = unat (regions_free t')"
  have cnt': "occupied t' + F' = T'" using table_inv_count [OF r(2)] by (simp add: T'_def F'_def)
  have "unat (regions_total t) * unat (2 :: 64 word) < 2 ^ LENGTH(64)" using T25 by (simp add: T_def)
  then have "unat (regions_total t * 2) = unat (regions_total t) * unat (2 :: 64 word)"
    by (simp only: unat_mult_lem)
  then have dbl: "unat (regions_total t * 2) = 2 * T" by (simp add: T_def)
  have tot': "T' = (if 4 * F < T then 2 * T else T)"
    using r(5) rc c4 dbl by (simp add: T'_def T_def)
  have fr': "F' + 1 = F + (if 4 * F < T then T else 0)"
    using r(7) rc c4 by (simp add: F'_def F_def T_def)
  have occ': "occupied t' = N + 1" using cnt cnt' tot' fr' T256 by (cases "4 * F < T") simp_all
  have "4 * (N + 1) \<le> 3 * T' + 4 \<and> (T' = 256 \<or> 3 * T' + 16 \<le> 8 * (N + 1))"
  proof (cases "4 * F < T")
    case True
    then have "T' = 2 * T" using tot' by simp
    moreover have "3 * T + 4 \<le> 4 * N" using True cnt Q by arith
    ultimately show ?thesis using Jn(1) T256 by arith
  next
    case False
    then have "T' = T" using tot' by simp
    moreover have "4 * N \<le> 3 * T" using False cnt by arith
    ultimately show ?thesis using Jn(2) by arith
  qed
  then have "grow_phase (unat (regions_total t')) (occupied t')"
    by (simp add: grow_phase_def occ' T'_def)
  then show ?thesis using r(1,2,4) rc occ' by (simp add: N_def)
qed

lemma run_inserts_counters:
  "table_inv t \<Longrightarrow> distinct ps \<Longrightarrow> 0 \<notin> set ps \<Longrightarrow> set ps \<inter> keyset (regions t) = {} \<Longrightarrow>
   \<not> map_fixed_regions_fails e \<Longrightarrow> \<not> protect_regions_fails e \<Longrightarrow>
   grow_phase (unat (regions_total t)) (occupied t) \<Longrightarrow> occupied t + length ps \<le> 786433 \<Longrightarrow>
   \<exists>t'. run_region_ops t (map (\<lambda>p. (e, Insert p sz g)) ps) = Inr t' \<and> table_inv t' \<and>
     occupied t' = occupied t + length ps \<and> grow_phase (unat (regions_total t')) (occupied t') \<and>
     keyset (regions t') = keyset (regions t) \<union> set ps"
proof (induction ps arbitrary: t)
  case Nil
  then show ?case by simp
next
  case (Cons p ps)
  have nz: "p \<noteq> 0" and fresh: "p \<notin> keyset (regions t)" using Cons.prems(3,4) by auto
  have n: "occupied t \<le> 786432" using Cons.prems(8) by simp
  from insert_counters [OF Cons.prems(1) nz fresh Cons.prems(5,6,7) n, of sz g] obtain t1 where
    t1: "regions_insert e t p sz g = Inr (0, t1)" "table_inv t1"
        "keyset (regions t1) = insert p (keyset (regions t))" "occupied t1 = occupied t + 1"
        "grow_phase (unat (regions_total t1)) (occupied t1)"
    by blast
  have "set ps \<inter> keyset (regions t1) = {}" using Cons.prems(2,4) t1(3) by auto
  moreover have "occupied t1 + length ps \<le> 786433" using Cons.prems(8) t1(4) by simp
  moreover have "distinct ps" "0 \<notin> set ps" using Cons.prems(2,3) by simp_all
  ultimately obtain t' where
    "run_region_ops t1 (map (\<lambda>p. (e, Insert p sz g)) ps) = Inr t'" "table_inv t'"
    "occupied t' = occupied t1 + length ps" "grow_phase (unat (regions_total t')) (occupied t')"
    "keyset (regions t') = keyset (regions t1) \<union> set ps"
    using Cons.IH [OF t1(2) _ _ _ Cons.prems(5,6) t1(5)] by blast
  then show ?case using t1(1,3,4) by simp
qed

lemma run_region_ops_append:
  "run_region_ops t (xs @ ys) =
    (case run_region_ops t xs of Inl f \<Rightarrow> Inl f | Inr t' \<Rightarrow> run_region_ops t' ys)"
  by (induction xs arbitrary: t) (simp_all split: sum.splits)

lemma unat_region_ptr:
  assumes "n < 2 ^ 20"
  shows "unat (region_ptr n) = 139637976727552 + 65536 * n"
proof -
  have n: "n < 2 ^ 64" using assms by simp
  have "unat (of_nat n :: 64 word) = n" using n by (simp add: unat_of_nat)
  then have "unat (65536 * of_nat n :: 64 word) = 65536 * n"
    using assms by (simp add: unat_word_ariths)
  then show ?thesis using assms by (simp add: region_ptr_def unat_word_ariths)
qed

lemma region_ptrs:
  assumes "N \<le> 2 ^ 20"
  shows "distinct (map region_ptr [0..<N])" "0 \<notin> set (map region_ptr [0..<N])"
    "\<And>m. N \<le> m \<Longrightarrow> m < 2 ^ 20 \<Longrightarrow> region_ptr m \<notin> set (map region_ptr [0..<N])"
proof -
  have inj: "\<And>n m. n < 2 ^ 20 \<Longrightarrow> m < 2 ^ 20 \<Longrightarrow> region_ptr n = region_ptr m \<Longrightarrow> n = m"
  proof -
    fix n m :: nat
    assume n: "n < 2 ^ 20" and m: "m < 2 ^ 20" and eq: "region_ptr n = region_ptr m"
    note a = unat_region_ptr [OF n] and b = unat_region_ptr [OF m]
    have "unat (region_ptr n) = unat (region_ptr m)" by (simp only: eq)
    then have "139637976727552 + 65536 * n = 139637976727552 + 65536 * m" by (simp only: a b)
    then show "n = m" by simp
  qed
  have "inj_on region_ptr {0..<N}"
  proof (rule inj_onI)
    fix n m assume nm: "n \<in> {0..<N}" "m \<in> {0..<N}" and eq: "region_ptr n = region_ptr m"
    have "n < 2 ^ 20" "m < 2 ^ 20" using nm assms by simp_all
    then show "n = m" using eq by (intro inj)
  qed
  then show "distinct (map region_ptr [0..<N])" by (simp add: distinct_map)
  show "0 \<notin> set (map region_ptr [0..<N])"
  proof
    assume "0 \<in> set (map region_ptr [0..<N])"
    then obtain n where n: "n < N" "region_ptr n = 0" by auto
    have "n < 2 ^ 20" using n(1) assms by simp
    note a = unat_region_ptr [OF this]
    have "unat (region_ptr n) = 0" by (simp only: n(2)) simp
    then show False by (simp add: a)
  qed
  fix m assume m: "N \<le> m" "m < 2 ^ 20"
  show "region_ptr m \<notin> set (map region_ptr [0..<N])"
  proof
    assume "region_ptr m \<in> set (map region_ptr [0..<N])"
    then obtain n where n: "n < N" "region_ptr m = region_ptr n" by auto
    have "n < 2 ^ 20" using n(1) assms by simp
    then have "m = n" using n(2) m(2) by (intro inj)
    then show False using n(1) m(1) by simp
  qed
qed

section \<open>Claims about the region table\<close>


lemma sample_region_ops_fresh: "fresh_inserts regions_init sample_region_ops"
  by code_simp

lemma sample_region_ops_dropped: "old_tables_dropped sample_region_ops"
  by (simp add: old_tables_dropped_def sample_region_ops_def quiet_env_def)

lemma sample_region_ops_returns: "\<not> isl (run_region_ops regions_init sample_region_ops)"
  by code_simp

text \<open>
  What holds of the table while it stays inside its two reserved buffers and the
  \<^verbatim>\<open>memory_map_fixed\<close> of \<^verbatim>\<open>regions_grow\<close> does not fail: start from the table of
  \<^verbatim>\<open>init_slow_path\<close> and run a sequence of inserts and deletes that returns, the
  inserted pointers being non-null and not registered at the time. Then no probing loop
  runs forever, every key in a slot is found by \<^verbatim>\<open>regions_find\<close> in that very slot,
  no key is in two slots, and the keys in the table are the pointers inserted with success
  and not deleted since.
\<close>

lemma regions_table_invariant:
  assumes "fresh_inserts regions_init ops" and "old_tables_dropped ops"
  shows "run_region_ops regions_init ops \<noteq> Inl Hang \<and>
    (\<forall>t. run_region_ops regions_init ops = Inr t \<longrightarrow>
      (\<forall>i < length (regions t). r_p (regions t ! i) \<noteq> 0 \<longrightarrow>
          regions_find t (r_p (regions t ! i)) = Some (Some (of_nat i))) \<and>
      (\<forall>i < length (regions t). \<forall>j < length (regions t).
          r_p (regions t ! i) \<noteq> 0 \<and> r_p (regions t ! i) = r_p (regions t ! j) \<longrightarrow> i = j) \<and>
      r_p ` set (regions t) - {0} = live_keys regions_init ops {})"
proof -
  note inv = run_region_ops_inv [OF regions_init_inv assms]
  have k0: "keyset (regions regions_init) = {}"
    by (auto simp: keyset_def regions_init_def initial_region_table_size_def null_region_def)
  show ?thesis
  proof (intro conjI allI impI)
    show "run_region_ops regions_init ops \<noteq> Inl Hang" using inv by simp
  next
    fix t i
    assume r: "run_region_ops regions_init ops = Inr t"
      and i: "i < length (regions t)" and nz: "r_p (regions t ! i) \<noteq> 0"
    from inv r obtain k where wf: "table_wf k t" by (auto simp: table_inv_def)
    then have k: "k < 64" and tot: "regions_total t = 2 ^ k" and len: "length (regions t) = 2 ^ k"
      and ok: "probe_ok k (regions t)" and dk: "keys_distinct (regions t)"
      by (simp_all add: table_wf_def)
    have "i < 2 ^ k" using i len by simp
    moreover have "occ (regions t) i" using nz by (simp add: occ_def)
    ultimately show "regions_find t (r_p (regions t ! i)) = Some (Some (of_nat i))"
      by (rule regions_find_present [OF k tot len ok dk])
  next
    fix t i j
    assume r: "run_region_ops regions_init ops = Inr t"
      and i: "i < length (regions t)" and j: "j < length (regions t)"
      and e: "r_p (regions t ! i) \<noteq> 0 \<and> r_p (regions t ! i) = r_p (regions t ! j)"
    from inv r obtain k where wf: "table_wf k t" by (auto simp: table_inv_def)
    then have dk: "keys_distinct (regions t)" by (simp add: table_wf_def)
    from e have "occ (regions t) i \<and> r_p (regions t ! i) = r_p (regions t ! j)"
      unfolding occ_def .
    then show "i = j" using dk i j unfolding keys_distinct_def by blast
  next
    fix t
    assume r: "run_region_ops regions_init ops = Inr t"
    then have "keyset (regions t) = live_keys regions_init ops (keyset (regions regions_init))"
      using inv by simp
    then have "keyset (regions t) = live_keys regions_init ops {}" by (simp only: k0)
    then show "r_p ` set (regions t) - {0} = live_keys regions_init ops {}"
      by (simp only: keyset_image)
  qed
qed

lemma regions_table_invariant_sample:
  "run_region_ops regions_init sample_region_ops \<noteq> Inl Hang \<and>
   regions_find (projr (run_region_ops regions_init sample_region_ops)) 0x7f0000101000
     = Some (Some 248) \<and>
   r_p ` set (regions (projr (run_region_ops regions_init sample_region_ops))) - {0}
     = live_keys regions_init sample_region_ops {}"
proof -
  let ?T = "projr (run_region_ops regions_init sample_region_ops)"
  have r: "run_region_ops regions_init sample_region_ops = Inr ?T"
    using sample_region_ops_returns by simp
  have "let T = ?T in 248 < length (regions T) \<and> r_p (regions T ! 248) = 0x7f0000101000"
    by code_simp
  then have s: "248 < length (regions ?T)" "r_p (regions ?T ! 248) = 0x7f0000101000"
    by (simp_all add: Let_def)
  note th = regions_table_invariant [OF sample_region_ops_fresh sample_region_ops_dropped]
  note h = th [THEN conjunct1]
  note x = th [THEN conjunct2, THEN spec, THEN mp, OF r]
  note k = x [THEN conjunct2, THEN conjunct2]
  have nz: "r_p (regions ?T ! 248) \<noteq> 0" by (simp add: s(2))
  note f = x [THEN conjunct1, THEN spec, THEN mp, OF s(1), THEN mp, OF nz]
  from f have "regions_find ?T 0x7f0000101000 = Some (Some 248)" by (simp add: s(2))
  then show ?thesis using h k by (intro conjI)
qed

text \<open>
  C1. The claim is made for every sequence, and the code does not keep it:
  \<^verbatim>\<open>init_slow_path\<close> reserves \<^verbatim>\<open>max_region_table_size\<close> bytes for each buffer of the
  table, not that many entries of 24 bytes. 786434 large allocations in a row, none
  freed, with every call of the page provider succeeding: the last insert finds
  \<open>2 ^ 20\<close> slots of which 262143 are free, and \<^verbatim>\<open>regions_grow\<close> rehashes into
  \<open>2 ^ 21\<close> slots, 48 MiB, of a buffer of 32 MiB.
\<close>

theorem regions_overrun:
  "run_region_ops regions_init overrun_region_ops = Inl Overrun"
proof -
  define N :: nat where "N = 786433"
  let ?ins = "\<lambda>p. (quiet_env, Insert p 20000 4096)"
  have q: "\<not> map_fixed_regions_fails quiet_env" "\<not> protect_regions_fails quiet_env"
    by (simp_all add: quiet_env_def)
  have N20: "N \<le> 2 ^ 20" "N < 2 ^ 20" by (simp_all add: N_def)
  note ptrs = region_ptrs [OF N20(1)]
  have k0: "keyset (regions regions_init) = {}"
    by (auto simp: keyset_def regions_init_def initial_region_table_size_def null_region_def)
  have o0: "occupied regions_init = 0"
    by (simp add: occupied_def regions_init_def initial_region_table_size_def null_region_def)
  have t0: "unat (regions_total regions_init) = 256"
    by (simp add: regions_init_def initial_region_table_size_def)
  have J0: "grow_phase (unat (regions_total regions_init)) (occupied regions_init)"
    by (simp add: grow_phase_def o0 t0)
  have e0: "set (map region_ptr [0..<N]) \<inter> keyset (regions regions_init) = {}"
    by (simp only: k0) simp
  have b0: "occupied regions_init + length (map region_ptr [0..<N]) \<le> 786433"
    by (simp add: o0 N_def del: upt_rec_numeral)
  from run_inserts_counters [OF regions_init_inv ptrs(1,2) e0 q J0 b0, of 20000 4096] obtain t where
    t: "run_region_ops regions_init (map ?ins (map region_ptr [0..<N])) = Inr t" "table_inv t"
       "occupied t = occupied regions_init + length (map region_ptr [0..<N])"
       "grow_phase (unat (regions_total t)) (occupied t)"
       "keyset (regions t) = keyset (regions regions_init) \<union> set (map region_ptr [0..<N])"
    by blast
  have occ: "occupied t = 786433" using t(3) by (simp add: o0 N_def del: upt_rec_numeral)
  define T F where "T = unat (regions_total t)" and "F = unat (regions_free t)"
  have cnt: "786433 + F = T" using table_inv_count [OF t(2)] occ by (simp add: T_def F_def)
  have J: "4 * 786433 \<le> 3 * T + 4" "T = 256 \<or> 3 * T + 16 \<le> 8 * 786433"
    using t(4) by (auto simp: grow_phase_def occ T_def)
  from table_inv_total [OF t(2)] obtain k where k: "T = 2 ^ k" by (auto simp: T_def)
  have lo: "2 ^ 20 \<le> T" using J(1) by simp
  have hi: "T < 2 ^ 21" using J(2) lo by auto
  have "k < 21"
  proof (rule ccontr)
    assume "\<not> k < 21"
    then have "(2::nat) ^ 21 \<le> 2 ^ k" by (intro power_increasing) simp_all
    then show False using hi k by simp
  qed
  moreover have "20 \<le> k"
  proof (rule ccontr)
    assume "\<not> 20 \<le> k"
    then have "(2::nat) ^ k \<le> 2 ^ 19" by (intro power_increasing) simp_all
    then show False using lo k by simp
  qed
  ultimately have "k = 20" by simp
  then have T: "T = 1048576" using k by simp
  then have F: "F = 262143" using cnt by simp
  have cond: "regions_free t * 4 < regions_total t"
    using free4_cond [OF t(2)] T F by (simp add: T_def F_def)
  have nz: "region_ptr N \<noteq> 0"
  proof
    assume z: "region_ptr N = 0"
    note a = unat_region_ptr [OF N20(2)]
    have "unat (region_ptr N) = 0" by (simp only: z) simp
    then show False by (simp add: a)
  qed
  have fresh: "region_ptr N \<notin> keyset (regions t)"
    using ptrs(3) [of N] N20(2) by (simp only: t(5) k0) simp
  note ok = regions_insert_good [OF t(2) nz fresh q(1), of 20000 4096]
  have last: "regions_insert quiet_env t (region_ptr N) 20000 4096 = Inl Overrun"
  proof (cases "regions_insert quiet_env t (region_ptr N) 20000 4096")
    case (Inl f)
    then show ?thesis using ok by simp
  next
    case (Inr x)
    obtain rc t' where x: "x = (rc, t')" by (cases x)
    have "rc = 0 \<or> rc = 1" using ok Inr x by auto
    then show ?thesis
    proof
      assume "rc = 0"
      then have "unat (regions_total t) < 2 ^ 20" using ok Inr x cond by simp
      then show ?thesis using T by (simp add: T_def)
    next
      assume "rc = 1"
      then have "protect_regions_fails quiet_env \<or> 2 ^ 25 \<le> unat (regions_total t)"
        using ok Inr x by simp
      then show ?thesis using q(2) T by (simp add: T_def)
    qed
  qed
  have "[0..<Suc N] = [0..<N] @ [N]" by simp
  then have "map (\<lambda>n. ?ins (region_ptr n)) [0..<Suc N]
      = map ?ins (map region_ptr [0..<N]) @ [?ins (region_ptr N)]"
    by (simp only: map_append map_map o_def list.map)
  then have "run_region_ops regions_init (map (\<lambda>n. ?ins (region_ptr n)) [0..<Suc N]) = Inl Overrun"
    using t(1) last by (simp only: run_region_ops_append) simp
  moreover have "Suc N = 786434" by (simp add: N_def)
  ultimately show ?thesis by (simp only: overrun_region_ops_def)
qed




section \<open>The slab engine: lemmas\<close>

subsection \<open>The tables of the size classes\<close>

lemma class_table_all:
  "list_all (\<lambda>(sz, slots). let s = (if sz = 0 then 16 else sz); ss = get_slab_size slots s in
      16 \<le> unat s \<and> unat s \<le> 16384 \<and> 4096 \<le> unat ss \<and> unat ss \<le> 65536 \<and>
      4 \<le> unat slots \<and> min (unat slots) 64 * unat s \<le> unat ss)
    (zip size_classes size_class_slots)"
  by (simp add: size_classes_def size_class_slots_def get_slab_size_def PAGE_CEILING_def PAGE_SIZE_def)

lemma length_size_classes: "length size_classes = 37" "length size_class_slots = 37"
  by (simp_all add: size_classes_def size_class_slots_def)

lemma class_table:
  assumes "cl < 37"
  shows "16 \<le> unat (class_size cl)" "unat (class_size cl) \<le> 16384"
    "4096 \<le> unat (class_slab_size cl)" "unat (class_slab_size cl) \<le> 65536"
    "4 \<le> unat (size_class_slots ! cl)"
    "min (unat (size_class_slots ! cl)) 64 * unat (class_size cl) \<le> unat (class_slab_size cl)"
proof -
  define P :: "size_t \<times> size_t \<Rightarrow> bool" where
    "P = (\<lambda>(sz, slots). let s = (if sz = 0 then 16 else sz); ss = get_slab_size slots s in
      16 \<le> unat s \<and> unat s \<le> 16384 \<and> 4096 \<le> unat ss \<and> unat ss \<le> 65536 \<and>
      4 \<le> unat slots \<and> min (unat slots) 64 * unat s \<le> unat ss)"
  have l: "cl < length (zip size_classes size_class_slots)"
    using assms by (simp add: length_size_classes)
  have "list_all P (zip size_classes size_class_slots)"
    unfolding P_def by (rule class_table_all)
  then have "P (zip size_classes size_class_slots ! cl)"
    using l unfolding list_all_length by blast
  then have "P (size_classes ! cl, size_class_slots ! cl)"
    using assms by (simp add: length_size_classes)
  then have "16 \<le> unat (class_size cl) \<and> unat (class_size cl) \<le> 16384 \<and>
    4096 \<le> unat (class_slab_size cl) \<and> unat (class_slab_size cl) \<le> 65536 \<and>
    4 \<le> unat (size_class_slots ! cl) \<and>
    min (unat (size_class_slots ! cl)) 64 * unat (class_size cl) \<le> unat (class_slab_size cl)"
    unfolding P_def class_size_def class_slab_size_def Let_def by simp
  then show "16 \<le> unat (class_size cl)" "unat (class_size cl) \<le> 16384"
    "4096 \<le> unat (class_slab_size cl)" "unat (class_slab_size cl) \<le> 65536"
    "4 \<le> unat (size_class_slots ! cl)"
    "min (unat (size_class_slots ! cl)) 64 * unat (class_size cl) \<le> unat (class_slab_size cl)"
    by blast+
qed

lemma unat_metadata_max:
  "unat (get_metadata_max ss) = 2 ^ 37 div unat ss"
  by (simp add: get_metadata_max_def class_region_size_def unat_div)

lemma size_classes_small_all:
  "list_all (\<lambda>n. \<not> isl (get_size_info (of_nat n)) \<and>
      si_class (projr (get_size_info (of_nat n))) < 37 \<and>
      (if n = 0 then si_class (projr (get_size_info (of_nat n))) = 0
       else si_class (projr (get_size_info (of_nat n))) \<noteq> 0) \<and>
      si_size (projr (get_size_info (of_nat n)))
        = size_classes ! si_class (projr (get_size_info (of_nat n)))) [0..<129]"
  by code_simp

lemma size_classes_max: "list_all (\<lambda>cl. size_classes ! cl \<le> max_slab_size_class) [9..<37]"
  by (simp add: size_classes_def max_slab_size_class_def upt_rec_numeral)

lemma size_classes_36: "size_classes ! 36 = max_slab_size_class"
  by (simp add: size_classes_def max_slab_size_class_def)

lemma get_size_info_Inr:
  assumes "get_size_info sz = Inr info"
  shows "sz \<le> max_slab_size_class"
proof (cases "sz \<le> 128")
  case True
  then have "unat sz \<le> 128" by (simp add: word_le_nat_alt)
  then show ?thesis by (simp add: max_slab_size_class_def word_le_nat_alt)
next
  case False
  then have nz: "sz \<noteq> 0" by auto
  from assms False nz obtain cl where f: "find (\<lambda>cl. sz \<le> size_classes ! cl) [9..<37] = Some cl"
    unfolding get_size_info_def N_SIZE_CLASSES_def
    by (cases "find (\<lambda>cl. sz \<le> size_classes ! cl) [9..<37]") (simp_all del: upt_rec_numeral)
  then have "cl \<in> set [9..<37]" "sz \<le> size_classes ! cl"
    by (auto simp: find_Some_iff simp del: upt_rec_numeral)
  moreover have "size_classes ! cl \<le> max_slab_size_class"
    using size_classes_max calculation(1) unfolding list_all_iff by blast
  ultimately show ?thesis by simp
qed

lemma get_size_info_ok:
  assumes "sz \<le> max_slab_size_class"
  shows "\<exists>info. get_size_info sz = Inr info \<and> si_class info < 37 \<and>
    si_size info = size_classes ! si_class info \<and> (si_class info = 0 \<longleftrightarrow> sz = 0)"
proof (cases "sz \<le> 128")
  case True
  then have "unat sz \<le> 128" by (simp add: word_le_nat_alt)
  then have "unat sz \<in> set [0..<129]" by (simp del: upt_rec_numeral)
  then have "\<not> isl (get_size_info (of_nat (unat sz))) \<and>
      si_class (projr (get_size_info (of_nat (unat sz)))) < 37 \<and>
      (if unat sz = 0 then si_class (projr (get_size_info (of_nat (unat sz)))) = 0
       else si_class (projr (get_size_info (of_nat (unat sz)))) \<noteq> 0) \<and>
      si_size (projr (get_size_info (of_nat (unat sz))))
        = size_classes ! si_class (projr (get_size_info (of_nat (unat sz))))"
    using size_classes_small_all unfolding list_all_iff by blast
  then have "\<not> isl (get_size_info sz) \<and> si_class (projr (get_size_info sz)) < 37 \<and>
      (si_class (projr (get_size_info sz)) = 0 \<longleftrightarrow> sz = 0) \<and>
      si_size (projr (get_size_info sz)) = size_classes ! si_class (projr (get_size_info sz))"
    by (simp add: unat_eq_zero split: if_splits)
  then show ?thesis by (cases "get_size_info sz") auto
next
  case False
  then have nz: "sz \<noteq> 0" by auto
  have "sz \<le> size_classes ! 36" using assms size_classes_36 by simp
  moreover have "(36::nat) \<in> set [9..<37]" by (simp del: upt_rec_numeral)
  ultimately have "\<exists>cl \<in> set [9..<37]. sz \<le> size_classes ! cl" by blast
  then obtain cl where f: "find (\<lambda>cl. sz \<le> size_classes ! cl) [9..<37] = Some cl"
    by (cases "find (\<lambda>cl. sz \<le> size_classes ! cl) [9..<37]")
       (auto simp: find_None_iff simp del: upt_rec_numeral)
  then have "cl \<in> set [9..<37]" by (auto simp: find_Some_iff simp del: upt_rec_numeral)
  then have c: "cl < 37" "cl \<noteq> 0" by (simp_all del: upt_rec_numeral)
  have "get_size_info sz = Inr \<lparr>si_size = size_classes ! cl, si_class = cl\<rparr>"
    unfolding get_size_info_def N_SIZE_CLASSES_def using False nz f
    by (simp del: upt_rec_numeral)
  then show ?thesis using c nz by simp
qed

subsection \<open>Bits of the occupancy bitmap\<close>

lemma all_bits_minus1:
  assumes "\<forall>i<64. bit (x :: 64 word) i"
  shows "x = - 1"
  by (rule bit_word_eqI) (use assms in simp)

lemma ffzl_zero_bit:
  assumes "x \<noteq> - 1"
  shows "\<exists>i<64. ffzl x = of_nat (Suc i) \<and> \<not> bit x i"
proof -
  from assms obtain j where "j < 64" "\<not> bit x j" using all_bits_minus1 by blast
  then have "\<exists>j \<in> set [0..<64]. \<not> bit x j" by auto
  then obtain i where f: "find (\<lambda>i. \<not> bit x i) [0..<64] = Some i"
    by (cases "find (\<lambda>i. \<not> bit x i) [0..<64]") (auto simp: find_None_iff)
  then have "i \<in> set [0..<64]" "\<not> bit x i" by (auto simp: find_Some_iff)
  then show ?thesis using f by (auto simp: ffzl_def)
qed

lemma ffzl_nonzero:
  assumes "ffzl x \<noteq> 0"
  shows "\<exists>i<64. ffzl x = of_nat (Suc i) \<and> \<not> bit x i"
proof (cases "find (\<lambda>i. \<not> bit x i) [0..<64]")
  case None
  then show ?thesis using assms by (simp add: ffzl_def)
next
  case (Some i)
  then have "i \<in> set [0..<64]" "\<not> bit x i" by (auto simp: find_Some_iff)
  then show ?thesis using Some by (auto simp: ffzl_def)
qed

lemma unat_of_nat_small: "i < 64 \<Longrightarrow> unat (of_nat (Suc i) - 1 :: 64 word) = i"
  by (simp add: unat_of_nat)

lemma bit_get_mask: "n \<le> 64 \<Longrightarrow> i < 64 \<Longrightarrow> bit (get_mask n) i \<longleftrightarrow> unat n \<le> i"
  by (auto simp: get_mask_def bit_simps word_less_nat_alt word_le_nat_alt)

lemma get_free_slot_ok:
  assumes "get_free_slot cfg e slots md = Inr slot"
  shows "unat slot < 64" "unat slot < unat slots" "\<not> bit (bitmap md) (unat slot)"
proof -
  define n where "n = (if slots > 64 then 64 else slots)"
  define masked where "masked = bitmap md OR get_mask n"
  have n: "n \<le> 64" "unat n \<le> unat slots"
    by (auto simp: n_def word_le_nat_alt word_less_nat_alt)
  have zero: "\<And>i. i < 64 \<Longrightarrow> \<not> bit masked i \<Longrightarrow> i < unat slots \<and> \<not> bit (bitmap md) i"
    using n by (auto simp: masked_def bit_or_iff bit_get_mask)
  from assms have ne: "masked \<noteq> - 1"
    by (auto simp: get_free_slot_def Let_def masked_def n_def split: if_splits)
  let ?split = "NOT (push_bit (unat (rand_u16 e)) (- 1 :: 64 word))"
  from assms ne have "slot = ffzl (masked OR ?split) - 1 \<and> ffzl (masked OR ?split) \<noteq> 0
      \<or> slot = ffzl masked - 1"
    by (auto simp: get_free_slot_def Let_def masked_def n_def split: if_splits)
  then have "\<exists>i<64. unat slot = i \<and> \<not> bit masked i"
  proof
    assume a: "slot = ffzl (masked OR ?split) - 1 \<and> ffzl (masked OR ?split) \<noteq> 0"
    then obtain i where "i < 64" "ffzl (masked OR ?split) = of_nat (Suc i)" "\<not> bit (masked OR ?split) i"
      using ffzl_nonzero by blast
    then show ?thesis using a by (auto simp: bit_or_iff unat_of_nat_small simp del: of_nat_Suc)
  next
    assume a: "slot = ffzl masked - 1"
    obtain i where "i < 64" "ffzl masked = of_nat (Suc i)" "\<not> bit masked i"
      using ffzl_zero_bit [OF ne] by blast
    then show ?thesis using a by (auto simp: unat_of_nat_small simp del: of_nat_Suc)
  qed
  then obtain i where i: "i < 64" "unat slot = i" "\<not> bit masked i" by blast
  show "unat slot < 64" using i by simp
  show "unat slot < unat slots" using zero [OF i(1,3)] i(2) by simp
  show "\<not> bit (bitmap md) (unat slot)" using zero [OF i(1,3)] i(2) by simp
qed


lemma check_index_iff: "check_index i = None \<longleftrightarrow> unat i < 64"
  by (simp add: check_index_def word_le_nat_alt)

lemma set_slot_Inr:
  "set_slot md slot = Inr md' \<longleftrightarrow> unat slot < 64 \<and> md' = md\<lparr>bitmap := bitmap md OR push_bit (unat slot) 1\<rparr>"
  by (auto simp: set_slot_def check_index_def word_le_nat_alt split: option.splits if_splits)



lemma bit_set: "k < 64 \<Longrightarrow> bit (w OR push_bit k (1 :: 64 word)) i \<longleftrightarrow> bit w i \<or> i = k"
  by (auto simp: bit_simps)

lemma bit_clear: "k < 64 \<Longrightarrow> bit (w AND NOT (push_bit k (1 :: 64 word))) i \<longleftrightarrow> bit w i \<and> i \<noteq> k"
  by (auto simp: bit_simps dest: bit_imp_le_length)

subsection \<open>What the list operations leave alone\<close>

lemma md_update_frame [simp]:
  "class_region_start (md_update c m f) = class_region_start c"
  "metadata_allocated (md_update c m f) = metadata_allocated c"
  "metadata_count (md_update c m f) = metadata_count c"
  "partial_slabs (md_update c m f) = partial_slabs c"
  "empty_slabs (md_update c m f) = empty_slabs c"
  "empty_slabs_total (md_update c m f) = empty_slabs_total c"
  "free_slabs_head (md_update c m f) = free_slabs_head c"
  "free_slabs_tail (md_update c m f) = free_slabs_tail c"
  "slab_info (md_update c m f) = (slab_info c)(m := f (slab_info c m))"
  by (simp_all add: md_update_def)

lemma push_partial_frame [simp]:
  "class_region_start (push_partial c m) = class_region_start c"
  "metadata_allocated (push_partial c m) = metadata_allocated c"
  "metadata_count (push_partial c m) = metadata_count c"
  "empty_slabs (push_partial c m) = empty_slabs c"
  "empty_slabs_total (push_partial c m) = empty_slabs_total c"
  "free_slabs_head (push_partial c m) = free_slabs_head c"
  "free_slabs_tail (push_partial c m) = free_slabs_tail c"
  "bitmap (slab_info (push_partial c m) i) = bitmap (slab_info c i)"
  "canary_value (slab_info (push_partial c m) i) = canary_value (slab_info c i)"
  by (simp_all add: push_partial_def Let_def split: option.splits)

lemma unlink_partial_frame [simp]:
  "class_region_start (unlink_partial c m) = class_region_start c"
  "metadata_allocated (unlink_partial c m) = metadata_allocated c"
  "metadata_count (unlink_partial c m) = metadata_count c"
  "empty_slabs (unlink_partial c m) = empty_slabs c"
  "empty_slabs_total (unlink_partial c m) = empty_slabs_total c"
  "free_slabs_head (unlink_partial c m) = free_slabs_head c"
  "free_slabs_tail (unlink_partial c m) = free_slabs_tail c"
  "bitmap (slab_info (unlink_partial c m) i) = bitmap (slab_info c i)"
  "canary_value (slab_info (unlink_partial c m) i) = canary_value (slab_info c i)"
  by (simp_all add: unlink_partial_def Let_def split: option.splits)

lemma enqueue_free_slab_frame [simp]:
  "class_region_start (enqueue_free_slab c m) = class_region_start c"
  "metadata_allocated (enqueue_free_slab c m) = metadata_allocated c"
  "metadata_count (enqueue_free_slab c m) = metadata_count c"
  "partial_slabs (enqueue_free_slab c m) = partial_slabs c"
  "empty_slabs (enqueue_free_slab c m) = empty_slabs c"
  "empty_slabs_total (enqueue_free_slab c m) = empty_slabs_total c"
  "free_slabs_tail (enqueue_free_slab c m) = Some m"
  "bitmap (slab_info (enqueue_free_slab c m) i) = bitmap (slab_info c i)"
  "canary_value (slab_info (enqueue_free_slab c m) i) = canary_value (slab_info c i)"
  by (simp_all add: enqueue_free_slab_def Let_def split: option.splits)

lemma retire_slab_frame [simp]:
  "class_region_start (fst (retire_slab e c ss m)) = class_region_start c"
  "metadata_allocated (fst (retire_slab e c ss m)) = metadata_allocated c"
  "metadata_count (fst (retire_slab e c ss m)) = metadata_count c"
  "bitmap (slab_info (fst (retire_slab e c ss m)) i) = bitmap (slab_info c i)"
  "canary_value (slab_info (fst (retire_slab e c ss m)) i) = canary_value (slab_info c i)"
  by (simp_all add: retire_slab_def Let_def)


subsection \<open>The tests of \<^verbatim>\<open>deallocate_small\<close>\<close>




subsection \<open>Initialisation and the size passed to \<^verbatim>\<open>allocate\<close>\<close>




section \<open>Claims about the slab engine and the dispatcher\<close>

text \<open>
  C5. The claim holds on the path of \<^verbatim>\<open>allocate_small\<close> through a new metadata entry,
  which masks the draw with \<^verbatim>\<open>canary_mask\<close>, and not on the path through the free list,
  which stores \<^verbatim>\<open>get_random_u64(&c->rng)\<close> as it is. Five allocations of 16376 bytes
  (class 36, four slots in a slab) fill one slab and start a second; freeing them puts one
  slab on the empty list and, the cache budget being exceeded, the other on the free list;
  the fifth of five further allocations takes the slab from the free list. With the draw
  \<open>0x1122334455667788\<close> the canary of that slab, which holds a live allocation, has
  the low byte \<open>0x88\<close> on a little-endian machine, and that byte is written behind the
  allocation.
\<close>

theorem canary_after_free_list_reuse:
  "(case mallocs sample_config sample_env (start_state (\<lambda>_. 0)) (replicate 5 16376) of
      Inl f \<Rightarrow> False
    | Inr (ps, s) \<Rightarrow>
        (case frees sample_config sample_env s (rev ps) of
           Inl f \<Rightarrow> False
         | Inr s \<Rightarrow>
             (case mallocs sample_config sample_env s (replicate 5 16376) of
                Inl f \<Rightarrow> False
              | Inr (qs, s) \<Rightarrow>
                  let md = slab_info (size_class_metadata s 36) 0 in
                  bitmap md = 1 \<and> canary_value md = rand_u64 sample_env \<and>
                  canary_value md AND 0xff = 0x88 \<and>
                  canary_value md \<noteq> rand_u64 sample_env AND canary_mask sample_config \<and>
                  load_u64 True (memory s) (last qs + 16384 - 8) = canary_value md)))"
  by code_simp




text \<open>
  C7. For a non-null pointer \<open>old\<close> in the slab region and a request \<open>n\<close> whose
  canary-adjusted size classifies (\<^verbatim>\<open>get_size_info\<close>) to the class of \<open>old\<close>,
  \<^verbatim>\<open>h_realloc\<close> returns \<open>old\<close> and leaves the whole state as it is. The instance
  is \<open>p = malloc(16)\<close> followed by \<open>realloc(p, 16)\<close>.
\<close>

theorem realloc_same_class:
  assumes "old \<noteq> 0" and "slab_region_start s \<le> old" and "old < slab_region_end s"
    and "get_size_info (adjust_size_for_canaries cfg n) = Inr info"
    and "si_class info = unat (slab_size_class s old)"
  shows "h_realloc cfg e s old n = Inr (old, s)"
proof -
  have le: "adjust_size_for_canaries cfg n \<le> max_slab_size_class"
    using assms(4) by (rule get_size_info_Inr)
  from get_size_info_ok [OF le] assms(4) have "si_size info = size_classes ! si_class info"
    by auto
  then have "si_size info = slab_usable_size s old"
    by (simp add: slab_usable_size_def assms(5))
  then show ?thesis using assms(1,2,3,4) le by (simp add: h_realloc_def Let_def)
qed

theorem realloc_same_class_witness:
  "fst (sample_alloc 16) \<noteq> 0 \<and>
   h_realloc hardened_config sample_env (snd (sample_alloc 16)) (fst (sample_alloc 16)) 16
     = Inr (sample_alloc 16)"
proof -
  have "let x = sample_alloc 16 in
      fst x \<noteq> 0 \<and> slab_region_start (snd x) \<le> fst x \<and> fst x < slab_region_end (snd x) \<and>
      si_class \<lparr>si_size = 32, si_class = 2\<rparr> = unat (slab_size_class (snd x) (fst x))"
    by code_simp
  then have 1: "fst (sample_alloc 16) \<noteq> 0"
    and 2: "slab_region_start (snd (sample_alloc 16)) \<le> fst (sample_alloc 16)"
    and 3: "fst (sample_alloc 16) < slab_region_end (snd (sample_alloc 16))"
    and 5: "si_class \<lparr>si_size = 32, si_class = 2\<rparr>
      = unat (slab_size_class (snd (sample_alloc 16)) (fst (sample_alloc 16)))"
    unfolding Let_def by blast+
  have 4: "get_size_info (adjust_size_for_canaries hardened_config 16)
      = Inr \<lparr>si_size = 32, si_class = 2\<rparr>" by code_simp
  from realloc_same_class [OF 1 2 3 4 5, of sample_env] show ?thesis using 1 by simp
qed

text \<open>
  C8. \<^verbatim>\<open>h_free(NULL)\<close> returns with the state unchanged, \<^verbatim>\<open>h_malloc_usable_size(NULL)\<close>
  returns 0, and \<^verbatim>\<open>h_realloc(NULL, n)\<close> is \<^verbatim>\<open>h_malloc(n)\<close>: the same result and the
  same state, for every state, environment and \<open>n\<close>.
\<close>

theorem null_pointer_calls:
  "h_free cfg e s 0 = Inr s \<and> h_malloc_usable_size cfg s 0 = Inr 0 \<and>
   h_realloc cfg e s 0 n = h_malloc cfg e s n"
  by (simp add: h_free_def h_malloc_usable_size_def h_realloc_def h_malloc_def)



end
